theory Spec2Isabelle
  imports Main
begin

section \<open>nano-limit: the limiter of src/limit.ts\<close>

text \<open>
  The limiter returned by \<^verbatim>\<open>createLimit\<close> is a closure over a handful of mutable
  variables (\<^verbatim>\<open>queue\<close>, \<^verbatim>\<open>activeCount\<close>, \<^verbatim>\<open>idleResolvers\<close>, \<^verbatim>\<open>tokens\<close>,
  \<^verbatim>\<open>lastRefill\<close>, \<^verbatim>\<open>refillTimeoutId\<close>) and four constants taken from the options.
  The model is one record holding these, together with the part of the JavaScript
  run time the code talks to: the promises it has handed out, the abort signals and
  their listeners, and the dispatched computations whose completion is pending.
  Every function of the source becomes a function on that record.

  What the model takes from the run time:
  \<^item> \<^verbatim>\<open>Date.now()\<close> is a parameter \<open>now\<close> of the functions that read the clock, one
    reading per synchronous run; times and the interval are integers (milliseconds), so
    \<^verbatim>\<open>Math.floor(elapsed / interval)\<close> is integer division. Nothing is assumed about
    the readings of successive events, nor about when an armed timer fires.
  \<^item> A promise is settled at most once; the continuation of a dispatched operation
    runs once, some time after the dispatch.
  \<^item> \<^verbatim>\<open>abort()\<close> on a signal sets its flag and then calls the listeners registered on
    it. Each call of a listener of the limiter is a step of its own, since listeners
    that are not the limiter's run in between and may call the limiter.
  \<^item> \<^verbatim>\<open>fn\<close> is always a function, so the \<^verbatim>\<open>TypeError\<close> of \<^verbatim>\<open>enqueue\<close> cannot arise.
\<close>

subsection \<open>Numbers\<close>

text \<open>
  The numbers of the source are JavaScript numbers that are either integers or
  \<^verbatim>\<open>Infinity\<close> (the default of \<^verbatim>\<open>concurrency\<close> and \<^verbatim>\<open>maxQueueSize\<close>, and the value of
  \<^verbatim>\<open>tokens\<close> when no rate is configured). Fractions and NaN are outside the model.
\<close>

datatype jsnum = Fin int | Infinity

fun num_lt :: "jsnum \<Rightarrow> jsnum \<Rightarrow> bool" where
  "num_lt (Fin a) (Fin b) = (a < b)"
| "num_lt (Fin a) Infinity = True"
| "num_lt Infinity b = False"

fun num_le :: "jsnum \<Rightarrow> jsnum \<Rightarrow> bool" where
  "num_le (Fin a) (Fin b) = (a \<le> b)"
| "num_le a Infinity = True"
| "num_le Infinity (Fin b) = False"

fun num_add :: "jsnum \<Rightarrow> jsnum \<Rightarrow> jsnum" where
  "num_add (Fin a) (Fin b) = Fin (a + b)"
| "num_add Infinity b = Infinity"
| "num_add a Infinity = Infinity"

fun num_min :: "jsnum \<Rightarrow> jsnum \<Rightarrow> jsnum" where
  "num_min (Fin a) (Fin b) = Fin (min a b)"
| "num_min Infinity b = b"
| "num_min a Infinity = a"

fun num_dec :: "jsnum \<Rightarrow> jsnum" where
  "num_dec (Fin a) = Fin (a - 1)"
| "num_dec Infinity = Infinity"

subsection \<open>Errors, operations and the limiter state\<close>

datatype error = TypeError | AbortError | QueueClearedError | QueueFullError | FnError nat

text \<open>How a promise was settled; the payloads of the computation are opaque.\<close>

datatype outcome = Resolved nat | Rejected error

text \<open>
  \<^verbatim>\<open>QueuedOperation\<close>. The fields \<^verbatim>\<open>fn\<close>, \<^verbatim>\<open>resolve\<close> and \<^verbatim>\<open>reject\<close> are closures tied
  to the promise of this one submission: \<open>op_id\<close> stands for them and for the identity
  of the object (\<^verbatim>\<open>queue.indexOf(op)\<close> compares identities). \<^verbatim>\<open>onAbort\<close> is set exactly
  when \<open>signal\<close> is.
\<close>

record operation =
  op_id :: nat
  priority :: int
  signal :: "nat option"

record LimitOptions =
  opt_concurrency :: "jsnum option"
  opt_rate :: "jsnum option"
  opt_interval :: "int option"
  opt_maxQueueSize :: "jsnum option"

record limiter =
  concurrency :: jsnum
  rate :: "int option"
  interval :: int
  maxQueueSize :: jsnum
  queue :: "operation list"
  activeCount :: int
  idleResolvers :: "nat list"
  tokens :: jsnum
  lastRefill :: int
  refillTimeoutId :: "int option"
  running :: "operation list"
  listeners :: "operation list"
  aborted :: "nat set"
  settled :: "nat \<rightharpoonup> outcome"
  idleResolved :: "nat list"
  next_id :: nat

text \<open>
  \<open>refillTimeoutId\<close> holds the time at which the armed timer is due, \<open>running\<close> the
  dispatched operations whose promise chain has not called back yet, \<open>listeners\<close> the
  registered \<^verbatim>\<open>onAbort\<close> handlers in registration order (the handler of \<open>x\<close> listens
  on \<open>signal x\<close>), \<open>aborted\<close> the signals whose \<^verbatim>\<open>aborted\<close> flag is set, \<open>settled\<close> the
  promises returned by submissions that are no longer pending, \<open>idleResolved\<close> the
  promises returned by \<^verbatim>\<open>onIdle\<close> that have been resolved, and \<open>next_id\<close> the next
  fresh object identity.
\<close>

subsection \<open>createLimit\<close>

definition createLimit :: "LimitOptions \<Rightarrow> int \<Rightarrow> error + limiter" where
  "createLimit options now =
     (let c = (case opt_concurrency options of None \<Rightarrow> Infinity | Some v \<Rightarrow> v);
          r = opt_rate options;
          i = (case opt_interval options of None \<Rightarrow> 1000 | Some v \<Rightarrow> v);
          m = (case opt_maxQueueSize options of None \<Rightarrow> Infinity | Some v \<Rightarrow> v)
      in if c \<noteq> Infinity \<and> num_le c (Fin 0) then Inl TypeError
         else if r \<noteq> None \<and> (num_le (the r) (Fin 0) \<or> the r = Infinity) then Inl TypeError
         else if i \<le> 0 then Inl TypeError
         else if m \<noteq> Infinity \<and> num_le m (Fin 0) then Inl TypeError
         else Inr \<lparr> concurrency = c,
                    rate = (case r of Some (Fin v) \<Rightarrow> Some v | _ \<Rightarrow> None),
                    interval = i,
                    maxQueueSize = m,
                    queue = [],
                    activeCount = 0,
                    idleResolvers = [],
                    tokens = (case r of None \<Rightarrow> Infinity | Some v \<Rightarrow> v),
                    lastRefill = now,
                    refillTimeoutId = None,
                    running = [],
                    listeners = [],
                    aborted = {},
                    settled = Map.empty,
                    idleResolved = [],
                    next_id = 0 \<rparr>)"

subsection \<open>Promises and listeners\<close>

text \<open>A promise keeps its first settlement: resolving or rejecting it again does nothing.\<close>

definition settle :: "nat \<Rightarrow> outcome \<Rightarrow> limiter \<Rightarrow> limiter" where
  "settle i out st =
     (if settled st i = None then st\<lparr>settled := (settled st)(i \<mapsto> out)\<rparr> else st)"

text \<open>\<^verbatim>\<open>if (op.onAbort && op.signal) op.signal.removeEventListener("abort", op.onAbort)\<close>\<close>

definition removeEventListener :: "operation \<Rightarrow> limiter \<Rightarrow> limiter" where
  "removeEventListener x st =
     (case signal x of
        None \<Rightarrow> st
      | Some s \<Rightarrow> st\<lparr>listeners := filter (\<lambda>l. op_id l \<noteq> op_id x) (listeners st)\<rparr>)"

text \<open>\<^verbatim>\<open>op.signal?.aborted\<close>\<close>

definition signal_aborted :: "nat option \<Rightarrow> limiter \<Rightarrow> bool" where
  "signal_aborted sg st = (case sg of None \<Rightarrow> False | Some s \<Rightarrow> s \<in> aborted st)"

subsection \<open>The token bucket\<close>

definition refillTokens :: "int \<Rightarrow> limiter \<Rightarrow> limiter" where
  "refillTokens now st =
     (case rate st of
        None \<Rightarrow> st
      | Some r \<Rightarrow>
          let elapsed = now - lastRefill st
          in if elapsed \<ge> interval st
             then let periods = elapsed div interval st
                  in st\<lparr>tokens := num_min (Fin r) (num_add (tokens st) (Fin (r * periods))),
                        lastRefill := lastRefill st + periods * interval st\<rparr>
             else st)"

definition scheduleRefill :: "int \<Rightarrow> limiter \<Rightarrow> limiter" where
  "scheduleRefill now st =
     (if rate st = None \<or> refillTimeoutId st \<noteq> None then st
      else if queue st = [] then st
      else let timeSinceLastRefill = now - lastRefill st;
               timeUntilRefill = max 0 (interval st - timeSinceLastRefill)
           in st\<lparr>refillTimeoutId := Some (now + timeUntilRefill)\<rparr>)"

subsection \<open>Idle waiters\<close>

definition checkIdle :: "limiter \<Rightarrow> limiter" where
  "checkIdle st =
     (if activeCount st = 0 \<and> queue st = [] \<and> idleResolvers st \<noteq> []
      then st\<lparr>idleResolved := idleResolved st @ idleResolvers st, idleResolvers := []\<rparr>
      else st)"

definition onIdle :: "limiter \<Rightarrow> limiter" where
  "onIdle st =
     (let w = next_id st; st0 = st\<lparr>next_id := Suc w\<rparr>
      in if activeCount st0 = 0 \<and> queue st0 = []
         then st0\<lparr>idleResolved := idleResolved st0 @ [w]\<rparr>
         else st0\<lparr>idleResolvers := idleResolvers st0 @ [w]\<rparr>)"

subsection \<open>The admission pass\<close>

text \<open>
  One turn of the \<^verbatim>\<open>while\<close> loop of \<^verbatim>\<open>processQueue\<close>: \<^verbatim>\<open>queue.shift()\<close>, removal of the
  abort listener, then either the rejection of an aborted operation or its dispatch.
\<close>

definition admit :: "limiter \<Rightarrow> limiter" where
  "admit st =
     (case queue st of
        [] \<Rightarrow> st
      | x # rest \<Rightarrow>
          let st1 = removeEventListener x (st\<lparr>queue := rest\<rparr>)
          in if signal_aborted (signal x) st1
             then settle (op_id x) (Rejected AbortError) st1
             else let st2 = st1\<lparr>activeCount := activeCount st1 + 1\<rparr>;
                      st3 = (if rate st2 \<noteq> None then st2\<lparr>tokens := num_dec (tokens st2)\<rparr> else st2)
                  in st3\<lparr>running := running st3 @ [x]\<rparr>)"

function processLoop :: "limiter \<Rightarrow> limiter" where
  "processLoop st =
     (if queue st \<noteq> [] \<and> num_lt (Fin (activeCount st)) (concurrency st) \<and> num_lt (Fin 0) (tokens st)
      then processLoop (admit st)
      else st)"
  by pat_completeness auto
termination
  by (relation "measure (\<lambda>st. length (queue st))")
     (auto simp: admit_def Let_def removeEventListener_def settle_def
           split: list.splits option.splits)

declare processLoop.simps [simp del]

definition processQueue :: "int \<Rightarrow> limiter \<Rightarrow> limiter" where
  "processQueue now st =
     (let st1 = processLoop (refillTokens now st);
          st2 = (if queue st1 \<noteq> [] \<and> num_le (tokens st1) (Fin 0) then scheduleRefill now st1 else st1)
      in checkIdle st2)"

text \<open>
  The continuation of a dispatched operation. It runs once per dispatch, so the step
  is enabled only for an operation that is in \<open>running\<close>; \<open>out\<close> is what \<^verbatim>\<open>op.fn()\<close>
  produced.
\<close>

definition complete :: "nat \<Rightarrow> outcome \<Rightarrow> int \<Rightarrow> limiter \<Rightarrow> limiter" where
  "complete i out now st =
     (if i \<in> op_id ` set (running st)
      then let st1 = st\<lparr>running := filter (\<lambda>y. op_id y \<noteq> i) (running st)\<rparr>;
               st2 = st1\<lparr>activeCount := activeCount st1 - 1\<rparr>;
               st3 = settle i out st2
           in checkIdle (processQueue now st3)
      else st)"

text \<open>The callback of the refill timer; enabled only while a timer is armed.\<close>

definition timerFire :: "int \<Rightarrow> limiter \<Rightarrow> limiter" where
  "timerFire now st =
     (case refillTimeoutId st of
        None \<Rightarrow> st
      | Some due \<Rightarrow> processQueue now (refillTokens now (st\<lparr>refillTimeoutId := None\<rparr>)))"

subsection \<open>Submission and cancellation\<close>

text \<open>The insertion loop of \<^verbatim>\<open>enqueue\<close>: splice before the first entry of lower priority, else push.\<close>

fun insert_op :: "operation \<Rightarrow> operation list \<Rightarrow> operation list" where
  "insert_op x [] = [x]"
| "insert_op x (q # qs) = (if priority x > priority q then x # q # qs else q # insert_op x qs)"

definition enqueue :: "int \<Rightarrow> nat option \<Rightarrow> int \<Rightarrow> limiter \<Rightarrow> limiter" where
  "enqueue prio sg now st =
     (let i = next_id st; st0 = st\<lparr>next_id := Suc i\<rparr>
      in if signal_aborted sg st0 then settle i (Rejected AbortError) st0
         else if num_le (maxQueueSize st0) (Fin (int (length (queue st0))))
         then settle i (Rejected QueueFullError) st0
         else let x = \<lparr>op_id = i, priority = prio, signal = sg\<rparr>;
                  st1 = (case sg of None \<Rightarrow> st0
                         | Some s \<Rightarrow> st0\<lparr>listeners := listeners st0 @ [x]\<rparr>);
                  st2 = st1\<lparr>queue := insert_op x (queue st1)\<rparr>
              in processQueue now st2)"

text \<open>\<^verbatim>\<open>queue.indexOf(op)\<close>, with \<open>None\<close> for \<open>-1\<close>, and \<^verbatim>\<open>queue.splice(index, 1)\<close>.\<close>

fun indexOf :: "operation list \<Rightarrow> operation \<Rightarrow> nat option" where
  "indexOf [] x = None"
| "indexOf (q # qs) x =
     (if op_id q = op_id x then Some 0
      else case indexOf qs x of None \<Rightarrow> None | Some n \<Rightarrow> Some (Suc n))"

definition splice1 :: "nat \<Rightarrow> 'a list \<Rightarrow> 'a list" where
  "splice1 i xs = take i xs @ drop (Suc i) xs"

definition onAbort :: "operation \<Rightarrow> limiter \<Rightarrow> limiter" where
  "onAbort x st =
     (case indexOf (queue st) x of
        None \<Rightarrow> st
      | Some index \<Rightarrow> settle (op_id x) (Rejected AbortError) (st\<lparr>queue := splice1 index (queue st)\<rparr>))"

text \<open>
  \<^verbatim>\<open>controller.abort()\<close> on signal \<open>s\<close> sets the flag of the signal. The run time then
  calls the listeners registered on \<open>s\<close>; the calls of the limiter's listeners are steps
  of their own (\<open>watcher\<close> below), since the signal may have other listeners which run
  in between and may call the limiter.
\<close>

definition abort :: "nat \<Rightarrow> limiter \<Rightarrow> limiter" where
  "abort s st = st\<lparr>aborted := insert s (aborted st)\<rparr>"

text \<open>
  The run time calls the listener \<^verbatim>\<open>onAbort\<close> of operation \<open>x\<close>. This happens only while
  the listener is registered and the flag of its signal is set, and at most once: the
  listener was added with \<^verbatim>\<open>{ once: true }\<close>, so it is taken off before it runs.
\<close>

definition watcher :: "operation \<Rightarrow> limiter \<Rightarrow> limiter" where
  "watcher x st =
     (if x \<in> set (listeners st) \<and> signal_aborted (signal x) st
      then onAbort x (removeEventListener x st)
      else st)"

subsection \<open>clearQueue\<close>

definition clearOne :: "bool \<Rightarrow> limiter \<Rightarrow> limiter" where
  "clearOne rej st =
     (case queue st of
        [] \<Rightarrow> st
      | x # rest \<Rightarrow>
          let st1 = removeEventListener x (st\<lparr>queue := rest\<rparr>)
          in if rej then settle (op_id x) (Rejected QueueClearedError) st1 else st1)"

function clearLoop :: "bool \<Rightarrow> limiter \<Rightarrow> limiter" where
  "clearLoop rej st = (if queue st \<noteq> [] then clearLoop rej (clearOne rej st) else st)"
  by pat_completeness auto
termination
  by (relation "measure (\<lambda>(rej, st). length (queue st))")
     (auto simp: clearOne_def Let_def removeEventListener_def settle_def
           split: list.splits option.splits)

declare clearLoop.simps [simp del]

definition clearQueue :: "bool \<Rightarrow> limiter \<Rightarrow> limiter" where
  "clearQueue rej st =
     (let st1 = (if refillTimeoutId st \<noteq> None then st\<lparr>refillTimeoutId := None\<rparr> else st)
      in checkIdle (clearLoop rej st1))"

subsection \<open>Runs of a limiter\<close>

text \<open>
  What can happen to one limiter: a submission, the completion of a dispatched
  operation, \<^verbatim>\<open>abort()\<close> on a signal, the call of one abort listener, the refill timer
  firing, \<^verbatim>\<open>clearQueue\<close>, \<^verbatim>\<open>onIdle\<close>. Each runs to completion before the next starts,
  so a history of the limiter is a list of events. Any order of events is a history:
  the run time runs the listeners of a signal right after its flag is set, in the
  order of registration, which is one of the orders covered.
\<close>

datatype event =
    Submit int "nat option" int
  | Complete nat outcome int
  | Abort nat
  | Watcher operation
  | TimerFire int
  | ClearQueue bool
  | OnIdle

fun step :: "limiter \<Rightarrow> event \<Rightarrow> limiter" where
  "step st (Submit prio sg now) = enqueue prio sg now st"
| "step st (Complete i out now) = complete i out now st"
| "step st (Abort s) = abort s st"
| "step st (Watcher x) = watcher x st"
| "step st (TimerFire now) = timerFire now st"
| "step st (ClearQueue rej) = clearQueue rej st"
| "step st OnIdle = onIdle st"

definition run :: "limiter \<Rightarrow> event list \<Rightarrow> limiter" where
  "run st evs = foldl step st evs"

subsection \<open>Properties of states\<close>

text \<open>The number of running operations is within the concurrency limit.\<close>

definition within_limit :: "limiter \<Rightarrow> bool" where
  "within_limit st \<longleftrightarrow> num_le (Fin (activeCount st)) (concurrency st)"

text \<open>
  Object identities are handed out once: queued operations have distinct identities
  below \<open>next_id\<close>, their promises are pending, none of them is running, and no
  promise from \<open>next_id\<close> on is settled.
\<close>

definition wf_ids :: "limiter \<Rightarrow> bool" where
  "wf_ids st \<longleftrightarrow>
     distinct (map op_id (queue st))
     \<and> (\<forall>x\<in>set (queue st). op_id x < next_id st \<and> settled st (op_id x) = None)
     \<and> (\<forall>x\<in>set (queue st). \<forall>y\<in>set (running st). op_id x \<noteq> op_id y)
     \<and> (\<forall>x\<in>set (running st). op_id x < next_id st)
     \<and> (\<forall>i. next_id st \<le> i \<longrightarrow> settled st i = None)"

text \<open>A queued operation with a signal has its listener registered.\<close>

definition wf_signals :: "limiter \<Rightarrow> bool" where
  "wf_signals st \<longleftrightarrow>
     (\<forall>x\<in>set (queue st). signal x \<noteq> None \<longrightarrow> x \<in> set (listeners st))"

definition wf :: "limiter \<Rightarrow> bool" where
  "wf st \<longleftrightarrow> wf_ids st \<and> wf_signals st"

text \<open>
  The interval is positive; without a rate the bucket is unlimited and no timer exists;
  with rate \<open>r\<close> the bucket holds between \<open>0\<close> and \<open>r\<close> tokens.
\<close>

definition bucket_ok :: "limiter \<Rightarrow> bool" where
  "bucket_ok st \<longleftrightarrow>
     0 < interval st
     \<and> (case rate st of
          None \<Rightarrow> tokens st = Infinity \<and> refillTimeoutId st = None
        | Some r \<Rightarrow> 0 < r \<and> (\<exists>t. tokens st = Fin t \<and> 0 \<le> t \<and> t \<le> r))"

text \<open>Pending work that no token can serve has a timer waiting for the next refill.\<close>

definition timer_ok :: "limiter \<Rightarrow> bool" where
  "timer_ok st \<longleftrightarrow> (queue st \<noteq> [] \<and> num_le (tokens st) (Fin 0) \<longrightarrow> refillTimeoutId st \<noteq> None)"

text \<open>An operation that is queued or running, with a pending promise and a quiet signal.\<close>

definition in_flight :: "operation \<Rightarrow> limiter \<Rightarrow> bool" where
  "in_flight x st \<longleftrightarrow>
     (x \<in> set (queue st) \<or> x \<in> set (running st))
     \<and> \<not> signal_aborted (signal x) st \<and> settled st (op_id x) = None"

text \<open>
  \<open>a\<close> goes before \<open>b\<close>: its priority is higher, or the priorities are equal and \<open>a\<close>
  was created (submitted) first.
\<close>

definition before :: "operation \<Rightarrow> operation \<Rightarrow> bool" where
  "before a b \<longleftrightarrow> priority b < priority a \<or> (priority a = priority b \<and> op_id a < op_id b)"

definition ordered_queue :: "limiter \<Rightarrow> bool" where
  "ordered_queue st \<longleftrightarrow> sorted_wrt before (queue st)"

text \<open>Nothing runs and nothing waits, the condition tested by \<^verbatim>\<open>checkIdle\<close> and \<^verbatim>\<open>onIdle\<close>.\<close>

definition idle :: "limiter \<Rightarrow> bool" where
  "idle st \<longleftrightarrow> activeCount st = 0 \<and> queue st = []"

text \<open>An idle limiter has no promise of \<^verbatim>\<open>onIdle\<close> left pending.\<close>

definition waiters_released :: "limiter \<Rightarrow> bool" where
  "waiters_released st \<longleftrightarrow> (idle st \<longrightarrow> idleResolvers st = [])"

subsection \<open>Example limiters\<close>

text \<open>
  \<^verbatim>\<open>createLimit({ concurrency: 1, rate: 1, interval: 100, maxQueueSize: 1 })\<close>, called
  at time \<open>0\<close>.
\<close>

definition example_options :: LimitOptions where
  "example_options =
     \<lparr> opt_concurrency = Some (Fin 1), opt_rate = Some (Fin 1),
       opt_interval = Some 100, opt_maxQueueSize = Some (Fin 1) \<rparr>"

definition example_limiter :: limiter where
  "example_limiter =
     \<lparr> concurrency = Fin 1, rate = Some 1, interval = 100, maxQueueSize = Fin 1,
       queue = [], activeCount = 0, idleResolvers = [], tokens = Fin 1, lastRefill = 0,
       refillTimeoutId = None, running = [], listeners = [], aborted = {},
       settled = Map.empty, idleResolved = [], next_id = 0 \<rparr>"

text \<open>\<^verbatim>\<open>createLimit()\<close>, with every option left at its default, called at time \<open>0\<close>.\<close>

definition unlimited_options :: LimitOptions where
  "unlimited_options =
     \<lparr> opt_concurrency = None, opt_rate = None, opt_interval = None, opt_maxQueueSize = None \<rparr>"

definition unlimited_limiter :: limiter where
  "unlimited_limiter =
     \<lparr> concurrency = Infinity, rate = None, interval = 1000, maxQueueSize = Infinity,
       queue = [], activeCount = 0, idleResolvers = [], tokens = Infinity, lastRefill = 0,
       refillTimeoutId = None, running = [], listeners = [], aborted = {},
       settled = Map.empty, idleResolved = [], next_id = 0 \<rparr>"

text \<open>\<^verbatim>\<open>createLimit({ concurrency: 1 })\<close>, called at time \<open>0\<close>.\<close>

definition serial_options :: LimitOptions where
  "serial_options =
     \<lparr> opt_concurrency = Some (Fin 1), opt_rate = None, opt_interval = None,
       opt_maxQueueSize = None \<rparr>"

definition serial_limiter :: limiter where
  "serial_limiter =
     \<lparr> concurrency = Fin 1, rate = None, interval = 1000, maxQueueSize = Infinity,
       queue = [], activeCount = 0, idleResolvers = [], tokens = Infinity, lastRefill = 0,
       refillTimeoutId = None, running = [], listeners = [], aborted = {},
       settled = Map.empty, idleResolved = [], next_id = 0 \<rparr>"

text \<open>
  A state in the middle of the race of admission and cancellation: the signal of the
  first queued operation has its flag set and the watcher has not run yet.
\<close>

definition race_limiter :: limiter where
  "race_limiter =
     \<lparr> concurrency = Fin 2, rate = Some 2, interval = 100, maxQueueSize = Infinity,
       queue = [\<lparr>op_id = 0, priority = 0, signal = Some 7\<rparr>,
                \<lparr>op_id = 1, priority = 0, signal = None\<rparr>],
       activeCount = 0, idleResolvers = [], tokens = Fin 2, lastRefill = 0,
       refillTimeoutId = None, running = [],
       listeners = [\<lparr>op_id = 0, priority = 0, signal = Some 7\<rparr>], aborted = {7},
       settled = Map.empty, idleResolved = [], next_id = 2 \<rparr>"

section \<open>Proofs\<close>

subsection \<open>What each function leaves alone\<close>

lemma settle_frame [simp]:
  "concurrency (settle i out st) = concurrency st"
  "rate (settle i out st) = rate st"
  "interval (settle i out st) = interval st"
  "maxQueueSize (settle i out st) = maxQueueSize st"
  "queue (settle i out st) = queue st"
  "activeCount (settle i out st) = activeCount st"
  "idleResolvers (settle i out st) = idleResolvers st"
  "tokens (settle i out st) = tokens st"
  "lastRefill (settle i out st) = lastRefill st"
  "refillTimeoutId (settle i out st) = refillTimeoutId st"
  "running (settle i out st) = running st"
  "listeners (settle i out st) = listeners st"
  "aborted (settle i out st) = aborted st"
  "idleResolved (settle i out st) = idleResolved st"
  "next_id (settle i out st) = next_id st"
  by (simp_all add: settle_def)

lemma removeEventListener_frame [simp]:
  "concurrency (removeEventListener x st) = concurrency st"
  "rate (removeEventListener x st) = rate st"
  "interval (removeEventListener x st) = interval st"
  "maxQueueSize (removeEventListener x st) = maxQueueSize st"
  "queue (removeEventListener x st) = queue st"
  "activeCount (removeEventListener x st) = activeCount st"
  "idleResolvers (removeEventListener x st) = idleResolvers st"
  "tokens (removeEventListener x st) = tokens st"
  "lastRefill (removeEventListener x st) = lastRefill st"
  "refillTimeoutId (removeEventListener x st) = refillTimeoutId st"
  "running (removeEventListener x st) = running st"
  "aborted (removeEventListener x st) = aborted st"
  "settled (removeEventListener x st) = settled st"
  "idleResolved (removeEventListener x st) = idleResolved st"
  "next_id (removeEventListener x st) = next_id st"
  by (simp_all add: removeEventListener_def split: option.splits)

lemma refillTokens_frame [simp]:
  "concurrency (refillTokens now st) = concurrency st"
  "rate (refillTokens now st) = rate st"
  "interval (refillTokens now st) = interval st"
  "maxQueueSize (refillTokens now st) = maxQueueSize st"
  "queue (refillTokens now st) = queue st"
  "activeCount (refillTokens now st) = activeCount st"
  "idleResolvers (refillTokens now st) = idleResolvers st"
  "refillTimeoutId (refillTokens now st) = refillTimeoutId st"
  "running (refillTokens now st) = running st"
  "listeners (refillTokens now st) = listeners st"
  "aborted (refillTokens now st) = aborted st"
  "settled (refillTokens now st) = settled st"
  "idleResolved (refillTokens now st) = idleResolved st"
  "next_id (refillTokens now st) = next_id st"
  by (simp_all add: refillTokens_def Let_def split: option.splits)

lemma scheduleRefill_frame [simp]:
  "concurrency (scheduleRefill now st) = concurrency st"
  "rate (scheduleRefill now st) = rate st"
  "interval (scheduleRefill now st) = interval st"
  "maxQueueSize (scheduleRefill now st) = maxQueueSize st"
  "queue (scheduleRefill now st) = queue st"
  "activeCount (scheduleRefill now st) = activeCount st"
  "idleResolvers (scheduleRefill now st) = idleResolvers st"
  "tokens (scheduleRefill now st) = tokens st"
  "lastRefill (scheduleRefill now st) = lastRefill st"
  "running (scheduleRefill now st) = running st"
  "listeners (scheduleRefill now st) = listeners st"
  "aborted (scheduleRefill now st) = aborted st"
  "settled (scheduleRefill now st) = settled st"
  "idleResolved (scheduleRefill now st) = idleResolved st"
  "next_id (scheduleRefill now st) = next_id st"
  by (simp_all add: scheduleRefill_def Let_def)

lemma checkIdle_frame [simp]:
  "concurrency (checkIdle st) = concurrency st"
  "rate (checkIdle st) = rate st"
  "interval (checkIdle st) = interval st"
  "maxQueueSize (checkIdle st) = maxQueueSize st"
  "queue (checkIdle st) = queue st"
  "activeCount (checkIdle st) = activeCount st"
  "tokens (checkIdle st) = tokens st"
  "lastRefill (checkIdle st) = lastRefill st"
  "refillTimeoutId (checkIdle st) = refillTimeoutId st"
  "running (checkIdle st) = running st"
  "listeners (checkIdle st) = listeners st"
  "aborted (checkIdle st) = aborted st"
  "settled (checkIdle st) = settled st"
  "next_id (checkIdle st) = next_id st"
  by (simp_all add: checkIdle_def)

lemma onIdle_frame [simp]:
  "concurrency (onIdle st) = concurrency st"
  "rate (onIdle st) = rate st"
  "interval (onIdle st) = interval st"
  "maxQueueSize (onIdle st) = maxQueueSize st"
  "queue (onIdle st) = queue st"
  "activeCount (onIdle st) = activeCount st"
  "tokens (onIdle st) = tokens st"
  "lastRefill (onIdle st) = lastRefill st"
  "refillTimeoutId (onIdle st) = refillTimeoutId st"
  "running (onIdle st) = running st"
  "listeners (onIdle st) = listeners st"
  "aborted (onIdle st) = aborted st"
  "settled (onIdle st) = settled st"
  by (simp_all add: onIdle_def Let_def)

lemma admit_frame [simp]:
  "concurrency (admit st) = concurrency st"
  "rate (admit st) = rate st"
  "interval (admit st) = interval st"
  "maxQueueSize (admit st) = maxQueueSize st"
  "idleResolvers (admit st) = idleResolvers st"
  "lastRefill (admit st) = lastRefill st"
  "refillTimeoutId (admit st) = refillTimeoutId st"
  "aborted (admit st) = aborted st"
  "idleResolved (admit st) = idleResolved st"
  "next_id (admit st) = next_id st"
  by (simp_all add: admit_def Let_def split: list.splits)

lemma onAbort_frame [simp]:
  "concurrency (onAbort x st) = concurrency st"
  "rate (onAbort x st) = rate st"
  "interval (onAbort x st) = interval st"
  "maxQueueSize (onAbort x st) = maxQueueSize st"
  "activeCount (onAbort x st) = activeCount st"
  "idleResolvers (onAbort x st) = idleResolvers st"
  "tokens (onAbort x st) = tokens st"
  "lastRefill (onAbort x st) = lastRefill st"
  "refillTimeoutId (onAbort x st) = refillTimeoutId st"
  "running (onAbort x st) = running st"
  "listeners (onAbort x st) = listeners st"
  "aborted (onAbort x st) = aborted st"
  "idleResolved (onAbort x st) = idleResolved st"
  "next_id (onAbort x st) = next_id st"
  by (simp_all add: onAbort_def split: option.splits)

lemma clearOne_frame [simp]:
  "concurrency (clearOne rej st) = concurrency st"
  "rate (clearOne rej st) = rate st"
  "interval (clearOne rej st) = interval st"
  "maxQueueSize (clearOne rej st) = maxQueueSize st"
  "activeCount (clearOne rej st) = activeCount st"
  "idleResolvers (clearOne rej st) = idleResolvers st"
  "tokens (clearOne rej st) = tokens st"
  "lastRefill (clearOne rej st) = lastRefill st"
  "refillTimeoutId (clearOne rej st) = refillTimeoutId st"
  "running (clearOne rej st) = running st"
  "aborted (clearOne rej st) = aborted st"
  "idleResolved (clearOne rej st) = idleResolved st"
  "next_id (clearOne rej st) = next_id st"
  by (simp_all add: clearOne_def Let_def split: list.splits)

lemma processLoop_preserves:
  assumes "\<And>s. P s \<Longrightarrow> P (admit s)" and "P st"
  shows "P (processLoop st)"
  using assms(2)
proof (induction st rule: processLoop.induct)
  case (1 st)
  show ?case
  proof (cases "queue st \<noteq> [] \<and> num_lt (Fin (activeCount st)) (concurrency st) \<and> num_lt (Fin 0) (tokens st)")
    case True
    then have "processLoop st = processLoop (admit st)"
      by (subst processLoop.simps) simp
    with True 1 assms(1) show ?thesis by simp
  next
    case False
    then have "processLoop st = st"
      by (subst processLoop.simps) auto
    with 1 show ?thesis by simp
  qed
qed

lemma processLoop_config [simp]:
  "concurrency (processLoop st) = concurrency st"
  "rate (processLoop st) = rate st"
  "interval (processLoop st) = interval st"
  "maxQueueSize (processLoop st) = maxQueueSize st"
  "idleResolvers (processLoop st) = idleResolvers st"
  "lastRefill (processLoop st) = lastRefill st"
  "refillTimeoutId (processLoop st) = refillTimeoutId st"
  "aborted (processLoop st) = aborted st"
  "idleResolved (processLoop st) = idleResolved st"
  "next_id (processLoop st) = next_id st"
proof -
  let ?P = "\<lambda>s. concurrency s = concurrency st \<and> rate s = rate st \<and> interval s = interval st
     \<and> maxQueueSize s = maxQueueSize st \<and> idleResolvers s = idleResolvers st
     \<and> lastRefill s = lastRefill st \<and> refillTimeoutId s = refillTimeoutId st
     \<and> aborted s = aborted st \<and> idleResolved s = idleResolved st \<and> next_id s = next_id st"
  have "?P (processLoop st)"
    by (rule processLoop_preserves) simp_all
  then show "concurrency (processLoop st) = concurrency st"
  "rate (processLoop st) = rate st"
  "interval (processLoop st) = interval st"
  "maxQueueSize (processLoop st) = maxQueueSize st"
  "idleResolvers (processLoop st) = idleResolvers st"
  "lastRefill (processLoop st) = lastRefill st"
  "refillTimeoutId (processLoop st) = refillTimeoutId st"
  "aborted (processLoop st) = aborted st"
  "idleResolved (processLoop st) = idleResolved st"
  "next_id (processLoop st) = next_id st"
    by simp_all
qed

lemma clearLoop_preserves:
  "(\<And>s. P s \<Longrightarrow> P (clearOne rej s)) \<Longrightarrow> P st \<Longrightarrow> P (clearLoop rej st)"
proof (induction rej st rule: clearLoop.induct)
  case (1 rej st)
  show ?case
  proof (cases "queue st \<noteq> []")
    case True
    then have "clearLoop rej st = clearLoop rej (clearOne rej st)"
      by (subst clearLoop.simps) simp
    moreover have "P (clearOne rej st)"
      by (rule "1.prems"(1)) (rule "1.prems"(2))
    then have "P (clearLoop rej (clearOne rej st))"
      using True "1.IH" "1.prems"(1) by simp
    ultimately show ?thesis by simp
  next
    case False
    then have "clearLoop rej st = st"
      by (subst clearLoop.simps) auto
    with 1 show ?thesis by simp
  qed
qed

lemma clearLoop_frame [simp]:
  "concurrency (clearLoop rej st) = concurrency st"
  "rate (clearLoop rej st) = rate st"
  "interval (clearLoop rej st) = interval st"
  "maxQueueSize (clearLoop rej st) = maxQueueSize st"
  "activeCount (clearLoop rej st) = activeCount st"
  "idleResolvers (clearLoop rej st) = idleResolvers st"
  "tokens (clearLoop rej st) = tokens st"
  "lastRefill (clearLoop rej st) = lastRefill st"
  "refillTimeoutId (clearLoop rej st) = refillTimeoutId st"
  "running (clearLoop rej st) = running st"
  "aborted (clearLoop rej st) = aborted st"
  "idleResolved (clearLoop rej st) = idleResolved st"
  "next_id (clearLoop rej st) = next_id st"
proof -
  let ?P = "\<lambda>s. concurrency s = concurrency st \<and> rate s = rate st \<and> interval s = interval st
     \<and> maxQueueSize s = maxQueueSize st \<and> activeCount s = activeCount st
     \<and> idleResolvers s = idleResolvers st \<and> tokens s = tokens st
     \<and> lastRefill s = lastRefill st \<and> refillTimeoutId s = refillTimeoutId st
     \<and> running s = running st
     \<and> aborted s = aborted st \<and> idleResolved s = idleResolved st \<and> next_id s = next_id st"
  have "?P (clearLoop rej st)"
    by (rule clearLoop_preserves) simp_all
  then show "concurrency (clearLoop rej st) = concurrency st"
  "rate (clearLoop rej st) = rate st"
  "interval (clearLoop rej st) = interval st"
  "maxQueueSize (clearLoop rej st) = maxQueueSize st"
  "activeCount (clearLoop rej st) = activeCount st"
  "idleResolvers (clearLoop rej st) = idleResolvers st"
  "tokens (clearLoop rej st) = tokens st"
  "lastRefill (clearLoop rej st) = lastRefill st"
  "refillTimeoutId (clearLoop rej st) = refillTimeoutId st"
  "running (clearLoop rej st) = running st"
  "aborted (clearLoop rej st) = aborted st"
  "idleResolved (clearLoop rej st) = idleResolved st"
  "next_id (clearLoop rej st) = next_id st"
    by simp_all
qed

lemma processQueue_frame [simp]:
  "concurrency (processQueue now st) = concurrency st"
  "rate (processQueue now st) = rate st"
  "interval (processQueue now st) = interval st"
  "maxQueueSize (processQueue now st) = maxQueueSize st"
  "aborted (processQueue now st) = aborted st"
  "next_id (processQueue now st) = next_id st"
  by (simp_all add: processQueue_def Let_def)

lemma complete_frame [simp]:
  "concurrency (complete i out now st) = concurrency st"
  "rate (complete i out now st) = rate st"
  "interval (complete i out now st) = interval st"
  "maxQueueSize (complete i out now st) = maxQueueSize st"
  "aborted (complete i out now st) = aborted st"
  "next_id (complete i out now st) = next_id st"
  by (simp_all add: complete_def Let_def)

lemma timerFire_frame [simp]:
  "concurrency (timerFire now st) = concurrency st"
  "rate (timerFire now st) = rate st"
  "interval (timerFire now st) = interval st"
  "maxQueueSize (timerFire now st) = maxQueueSize st"
  "aborted (timerFire now st) = aborted st"
  "next_id (timerFire now st) = next_id st"
  by (simp_all add: timerFire_def split: option.splits)

lemma enqueue_frame [simp]:
  "concurrency (enqueue prio sg now st) = concurrency st"
  "rate (enqueue prio sg now st) = rate st"
  "interval (enqueue prio sg now st) = interval st"
  "maxQueueSize (enqueue prio sg now st) = maxQueueSize st"
  "aborted (enqueue prio sg now st) = aborted st"
  by (simp_all add: enqueue_def Let_def split: option.splits)

lemma abort_frame [simp]:
  "concurrency (abort s st) = concurrency st"
  "rate (abort s st) = rate st"
  "interval (abort s st) = interval st"
  "maxQueueSize (abort s st) = maxQueueSize st"
  "queue (abort s st) = queue st"
  "activeCount (abort s st) = activeCount st"
  "idleResolvers (abort s st) = idleResolvers st"
  "tokens (abort s st) = tokens st"
  "lastRefill (abort s st) = lastRefill st"
  "refillTimeoutId (abort s st) = refillTimeoutId st"
  "running (abort s st) = running st"
  "listeners (abort s st) = listeners st"
  "settled (abort s st) = settled st"
  "idleResolved (abort s st) = idleResolved st"
  "next_id (abort s st) = next_id st"
  by (simp_all add: abort_def)

lemma watcher_frame [simp]:
  "concurrency (watcher x st) = concurrency st"
  "rate (watcher x st) = rate st"
  "interval (watcher x st) = interval st"
  "maxQueueSize (watcher x st) = maxQueueSize st"
  "activeCount (watcher x st) = activeCount st"
  "idleResolvers (watcher x st) = idleResolvers st"
  "tokens (watcher x st) = tokens st"
  "lastRefill (watcher x st) = lastRefill st"
  "refillTimeoutId (watcher x st) = refillTimeoutId st"
  "running (watcher x st) = running st"
  "aborted (watcher x st) = aborted st"
  "idleResolved (watcher x st) = idleResolved st"
  "next_id (watcher x st) = next_id st"
  by (simp_all add: watcher_def)

lemma clearQueue_frame [simp]:
  "concurrency (clearQueue rej st) = concurrency st"
  "rate (clearQueue rej st) = rate st"
  "interval (clearQueue rej st) = interval st"
  "maxQueueSize (clearQueue rej st) = maxQueueSize st"
  "activeCount (clearQueue rej st) = activeCount st"
  "tokens (clearQueue rej st) = tokens st"
  "lastRefill (clearQueue rej st) = lastRefill st"
  "running (clearQueue rej st) = running st"
  "aborted (clearQueue rej st) = aborted st"
  "next_id (clearQueue rej st) = next_id st"
  by (simp_all add: clearQueue_def Let_def)

lemma step_config [simp]:
  "concurrency (step st e) = concurrency st"
  "rate (step st e) = rate st"
  "interval (step st e) = interval st"
  "maxQueueSize (step st e) = maxQueueSize st"
  by (cases e; simp)+

lemma run_Nil [simp]: "run st [] = st"
  by (simp add: run_def)

lemma run_Cons [simp]: "run st (e # evs) = run (step st e) evs"
  by (simp add: run_def)

lemma run_snoc [simp]: "run st (evs @ [e]) = step (run st evs) e"
  by (simp add: run_def)

lemma run_config [simp]:
  "concurrency (run st evs) = concurrency st"
  "rate (run st evs) = rate st"
  "interval (run st evs) = interval st"
  "maxQueueSize (run st evs) = maxQueueSize st"
  by (induction evs arbitrary: st; simp)+

text \<open>A property that holds initially and is kept by every event holds after every run.\<close>

lemma run_preserves:
  "(\<And>s e. P s \<Longrightarrow> P (step s e)) \<Longrightarrow> P st \<Longrightarrow> P (run st evs)"
  by (induction evs arbitrary: st) simp_all

subsection \<open>createLimit\<close>

text \<open>The definitions to unfold when a concrete run is evaluated.\<close>

lemmas eval_defs = example_limiter_def enqueue_def processQueue_def refillTokens_def
  scheduleRefill_def checkIdle_def admit_def settle_def removeEventListener_def
  signal_aborted_def complete_def timerFire_def abort_def watcher_def onAbort_def splice1_def
  clearQueue_def clearOne_def onIdle_def Let_def processLoop.simps clearLoop.simps

lemma createLimit_Inr:
  assumes "createLimit options now = Inr st0"
  shows "activeCount st0 = 0" and "queue st0 = []" and "running st0 = []"
    and "refillTimeoutId st0 = None" and "listeners st0 = []" and "aborted st0 = {}"
    and "settled st0 = Map.empty" and "next_id st0 = 0" and "idleResolvers st0 = []"
    and "idleResolved st0 = []" and "lastRefill st0 = now"
    and "concurrency st0 = Infinity \<or> \<not> num_le (concurrency st0) (Fin 0)"
    and "maxQueueSize st0 = Infinity \<or> \<not> num_le (maxQueueSize st0) (Fin 0)"
    and "0 < interval st0"
    and "rate st0 = None \<longrightarrow> tokens st0 = Infinity"
    and "\<forall>r. rate st0 = Some r \<longrightarrow> 0 < r \<and> tokens st0 = Fin r"
proof -
  let ?c = "case opt_concurrency options of None \<Rightarrow> Infinity | Some v \<Rightarrow> v"
  let ?r = "opt_rate options"
  let ?i = "case opt_interval options of None \<Rightarrow> 1000 | Some v \<Rightarrow> v"
  let ?m = "case opt_maxQueueSize options of None \<Rightarrow> Infinity | Some v \<Rightarrow> v"
  let ?st = "\<lparr> concurrency = ?c,
                rate = (case ?r of Some (Fin v) \<Rightarrow> Some v | _ \<Rightarrow> None),
                interval = ?i, maxQueueSize = ?m, queue = [], activeCount = 0,
                idleResolvers = [], tokens = (case ?r of None \<Rightarrow> Infinity | Some v \<Rightarrow> v),
                lastRefill = now, refillTimeoutId = None, running = [], listeners = [],
                aborted = {}, settled = Map.empty, idleResolved = [], next_id = 0 \<rparr>"
  have vc: "?c = Infinity \<or> \<not> num_le ?c (Fin 0)"
    using assms unfolding createLimit_def Let_def by (metis Inl_Inr_False)
  have vr: "?r = None \<or> (\<not> num_le (the ?r) (Fin 0) \<and> the ?r \<noteq> Infinity)"
    using assms unfolding createLimit_def Let_def by (metis Inl_Inr_False)
  have vi: "\<not> ?i \<le> 0"
    using assms unfolding createLimit_def Let_def by (metis Inl_Inr_False)
  have vm: "?m = Infinity \<or> \<not> num_le ?m (Fin 0)"
    using assms unfolding createLimit_def Let_def by (metis Inl_Inr_False)
  have "createLimit options now = Inr ?st"
    unfolding createLimit_def Let_def using vc vr vi vm by presburger
  with assms have eq: "st0 = ?st" by simp
  show "activeCount st0 = 0" and "queue st0 = []" and "running st0 = []"
    and "refillTimeoutId st0 = None" and "listeners st0 = []" and "aborted st0 = {}"
    and "settled st0 = Map.empty" and "next_id st0 = 0" and "idleResolvers st0 = []"
    and "idleResolved st0 = []" and "lastRefill st0 = now"
    by (simp_all add: eq)
  show "concurrency st0 = Infinity \<or> \<not> num_le (concurrency st0) (Fin 0)"
    using vc by (simp add: eq)
  show "maxQueueSize st0 = Infinity \<or> \<not> num_le (maxQueueSize st0) (Fin 0)"
    using vm by (simp add: eq)
  show "0 < interval st0"
    using vi by (simp add: eq)
  show "rate st0 = None \<longrightarrow> tokens st0 = Infinity"
    using vr by (cases ?r; cases "the ?r") (simp_all add: eq)
  show "\<forall>r. rate st0 = Some r \<longrightarrow> 0 < r \<and> tokens st0 = Fin r"
    using vr by (cases ?r; cases "the ?r") (simp_all add: eq)
qed


lemma createLimit_example: "createLimit example_options 0 = Inr example_limiter"
  by (simp add: createLimit_def example_options_def example_limiter_def Let_def)

lemma createLimit_serial: "createLimit serial_options 0 = Inr serial_limiter"
  by (simp add: createLimit_def serial_options_def serial_limiter_def Let_def)

subsection \<open>The concurrency limit\<close>

lemma num_lt_succ_le: "num_lt (Fin a) c \<Longrightarrow> num_le (Fin (a + 1)) c"
  by (cases c) simp_all

lemma num_le_pred: "num_le (Fin a) c \<Longrightarrow> num_le (Fin (a - 1)) c"
  by (cases c) simp_all

lemma activeCount_admit_le: "activeCount (admit st) \<le> activeCount st + 1"
  by (simp add: admit_def Let_def settle_def split: list.splits)

lemma num_le_mono: "a \<le> b \<Longrightarrow> num_le (Fin b) c \<Longrightarrow> num_le (Fin a) c"
  by (cases c) simp_all

lemma processLoop_within_limit: "within_limit st \<Longrightarrow> within_limit (processLoop st)"
proof (induction st rule: processLoop.induct)
  case (1 st)
  show ?case
  proof (cases "queue st \<noteq> [] \<and> num_lt (Fin (activeCount st)) (concurrency st) \<and> num_lt (Fin 0) (tokens st)")
    case True
    then have eq: "processLoop st = processLoop (admit st)"
      by (subst processLoop.simps) simp
    from True have "num_le (Fin (activeCount st + 1)) (concurrency st)"
      by (simp add: num_lt_succ_le)
    then have "within_limit (admit st)"
      unfolding within_limit_def using activeCount_admit_le [of st] num_le_mono by force
    with True 1 eq show ?thesis by simp
  next
    case False
    then have "processLoop st = st"
      by (subst processLoop.simps) auto
    with 1 show ?thesis by simp
  qed
qed

lemma processQueue_within_limit: "within_limit st \<Longrightarrow> within_limit (processQueue now st)"
proof -
  assume a: "within_limit st"
  have "within_limit (refillTokens now st)" using a by (simp add: within_limit_def)
  then have "within_limit (processLoop (refillTokens now st))" by (rule processLoop_within_limit)
  then show ?thesis by (simp add: processQueue_def Let_def within_limit_def)
qed

lemma enqueue_within_limit: "within_limit st \<Longrightarrow> within_limit (enqueue prio sg now st)"
proof -
  assume a: "within_limit st"
  have k: "\<And>s. activeCount s = activeCount st \<Longrightarrow> concurrency s = concurrency st \<Longrightarrow> within_limit s"
    using a by (simp add: within_limit_def)
  let ?st0 = "st\<lparr>next_id := Suc (next_id st)\<rparr>"
  let ?x = "\<lparr>op_id = next_id st, priority = prio, signal = sg\<rparr>"
  let ?st1 = "(case sg of None \<Rightarrow> ?st0 | Some s \<Rightarrow> ?st0\<lparr>listeners := listeners ?st0 @ [?x]\<rparr>)"
  let ?st2 = "?st1\<lparr>queue := insert_op ?x (queue ?st1)\<rparr>"
  have "within_limit ?st2" by (rule k) (simp_all split: option.splits)
  then have 1: "within_limit (processQueue now ?st2)" by (rule processQueue_within_limit)
  have 2: "\<And>e. within_limit (settle (next_id st) e ?st0)" by (rule k) simp_all
  show ?thesis
    unfolding enqueue_def Let_def using 1 2 by simp
qed

lemma complete_within_limit: "within_limit st \<Longrightarrow> within_limit (complete i out now st)"
proof -
  assume a: "within_limit st"
  let ?st3 = "settle i out (st\<lparr>running := filter (\<lambda>y. op_id y \<noteq> i) (running st),
                                 activeCount := activeCount st - 1\<rparr>)"
  have "within_limit ?st3"
    using a by (simp add: within_limit_def num_le_pred)
  then have "within_limit (processQueue now ?st3)"
    by (rule processQueue_within_limit)
  then have "within_limit (checkIdle (processQueue now ?st3))"
    by (simp add: within_limit_def)
  then show ?thesis using a
    by (simp add: complete_def Let_def)
qed

lemma timerFire_within_limit: "within_limit st \<Longrightarrow> within_limit (timerFire now st)"
proof -
  assume a: "within_limit st"
  have "within_limit (refillTokens now (st\<lparr>refillTimeoutId := None\<rparr>))"
    using a by (simp add: within_limit_def)
  then have "within_limit (processQueue now (refillTokens now (st\<lparr>refillTimeoutId := None\<rparr>)))"
    by (rule processQueue_within_limit)
  then show ?thesis using a
    by (simp add: timerFire_def split: option.splits)
qed

lemma step_within_limit: "within_limit st \<Longrightarrow> within_limit (step st e)"
  by (cases e)
     (simp_all add: enqueue_within_limit complete_within_limit timerFire_within_limit,
      simp_all add: clearQueue_def within_limit_def Let_def)

lemma createLimit_within_limit: "createLimit options now = Inr st0 \<Longrightarrow> within_limit st0"
  using createLimit_Inr(1,12) [of options now st0]
  by (cases "concurrency st0") (auto simp: within_limit_def)

text \<open>
  Claim C1. For every sequence of submissions, completions, cancellations, timer fires
  (and calls of \<^verbatim>\<open>clearQueue\<close> and \<^verbatim>\<open>onIdle\<close>) on a limiter made by \<^verbatim>\<open>createLimit\<close>,
  \<open>activeCount\<close> never exceeds the configured concurrency limit, which itself never
  changes.
\<close>

theorem C1_activeCount_le_concurrency:
  assumes "createLimit options now = Inr st0"
  shows "num_le (Fin (activeCount (run st0 evs))) (concurrency st0)
         \<and> concurrency (run st0 evs) = concurrency st0"
proof -
  have "within_limit (run st0 evs)"
    by (rule run_preserves) (simp_all add: step_within_limit createLimit_within_limit [OF assms])
  then show ?thesis by (simp add: within_limit_def)
qed

theorem C1_witness:
  "createLimit example_options 0 = Inr example_limiter
   \<and> activeCount (run example_limiter [Submit 0 None 0, Submit 0 None 0]) = 1
   \<and> num_le (Fin (activeCount (run example_limiter [Submit 0 None 0, Submit 0 None 0])))
        (concurrency example_limiter)"
  using C1_activeCount_le_concurrency [OF createLimit_example, of "[Submit 0 None 0, Submit 0 None 0]"]
    createLimit_example
  by (simp add: eval_defs)

subsection \<open>Every reachable state is well formed\<close>

lemma notin_ids: "i \<notin> op_id ` set xs \<longleftrightarrow> (\<forall>y\<in>set xs. op_id y \<noteq> i)"
  by auto

lemma wf_cong:
  assumes "queue s' = queue s" "next_id s' = next_id s" "settled s' = settled s"
    "running s' = running s" "listeners s' = listeners s"
  shows "wf s' = wf s"
  by (simp add: wf_def wf_ids_def wf_signals_def assms)

lemma wf_ids_cong:
  assumes "queue s' = queue s" "next_id s' = next_id s" "settled s' = settled s"
    "running s' = running s"
  shows "wf_ids s' = wf_ids s"
  by (simp add: wf_ids_def assms)

lemma settled_settle: "settled (settle i out st) j =
    (if j = i \<and> settled st i = None then Some out else settled st j)"
  by (simp add: settle_def)

lemma wf_ids_settle:
  "wf_ids st \<Longrightarrow> i \<notin> op_id ` set (queue st) \<Longrightarrow> i < next_id st \<Longrightarrow> wf_ids (settle i out st)"
  unfolding wf_ids_def by (auto simp: settled_settle)

lemma wf_admit: "wf st \<Longrightarrow> wf (admit st)"
proof (cases "queue st")
  case Nil
  then show "wf st \<Longrightarrow> wf (admit st)" by (simp add: admit_def)
next
  case (Cons x rest)
  assume w: "wf st"
  let ?st1 = "removeEventListener x (st\<lparr>queue := rest\<rparr>)"
  from w Cons have x: "\<forall>y\<in>set rest. op_id y \<noteq> op_id x" "op_id x < next_id st"
    by (auto simp: wf_def wf_ids_def notin_ids)
  from w Cons have i1: "wf_ids ?st1"
    by (auto simp: wf_def wf_ids_def notin_ids)
  from w Cons x have s1: "wf_signals ?st1"
    by (auto simp: wf_def wf_signals_def removeEventListener_def split: option.splits)
  show "wf (admit st)"
  proof (cases "signal_aborted (signal x) ?st1")
    case True
    then have eq: "admit st = settle (op_id x) (Rejected AbortError) ?st1"
      by (simp add: admit_def Cons Let_def)
    have "wf_ids (settle (op_id x) (Rejected AbortError) ?st1)"
      using i1 x by (intro wf_ids_settle) auto
    moreover have "wf_signals (settle (op_id x) (Rejected AbortError) ?st1)"
      using s1 by (simp add: wf_signals_def)
    ultimately show ?thesis by (simp add: eq wf_def)
  next
    case False
    then have q: "queue (admit st) = rest" "running (admit st) = running st @ [x]"
      "settled (admit st) = settled st" "listeners (admit st) = listeners ?st1"
      by (simp_all add: admit_def Cons Let_def)
    have "wf_ids (admit st)"
      using i1 x unfolding wf_ids_def by (auto simp: q notin_ids)
    moreover have "wf_signals (admit st)"
      using s1 unfolding wf_signals_def by (auto simp: q)
    ultimately show ?thesis by (simp add: wf_def)
  qed
qed

lemma wf_processQueue: "wf st \<Longrightarrow> wf (processQueue now st)"
proof -
  assume "wf st"
  then have "wf (refillTokens now st)" by (simp add: wf_cong [of "refillTokens now st" st])
  then have 1: "wf (processLoop (refillTokens now st))"
    by (rule processLoop_preserves [rotated]) (rule wf_admit)
  have "wf (processQueue now st) = wf (processLoop (refillTokens now st))"
    by (rule wf_cong) (simp_all add: processQueue_def Let_def)
  with 1 show ?thesis by simp
qed

lemma indexOf_None: "indexOf q x = None \<longleftrightarrow> op_id x \<notin> op_id ` set q"
  by (induction q) (auto split: option.splits)

lemma splice1_Cons_Suc [simp]: "splice1 (Suc n) (q # qs) = q # splice1 n qs"
  by (simp add: splice1_def)

lemma splice1_0 [simp]: "splice1 0 (q # qs) = qs"
  by (simp add: splice1_def)

lemma indexOf_Some_splice:
  "indexOf q x = Some n \<Longrightarrow> distinct (map op_id q)
   \<Longrightarrow> splice1 n q = filter (\<lambda>y. op_id y \<noteq> op_id x) q"
proof (induction q arbitrary: n)
  case Nil
  then show ?case by simp
next
  case (Cons a q)
  show ?case
  proof (cases "op_id a = op_id x")
    case True
    with Cons.prems have "n = 0" and "\<forall>y\<in>set q. op_id y \<noteq> op_id x"
      by (simp_all add: notin_ids)
    with True show ?thesis by simp
  next
    case False
    with Cons.prems obtain m where m: "indexOf q x = Some m" "n = Suc m"
      by (auto split: option.splits)
    with Cons False show ?thesis by simp
  qed
qed

lemma queue_onAbort:
  "distinct (map op_id (queue st))
   \<Longrightarrow> queue (onAbort x st) = filter (\<lambda>y. op_id y \<noteq> op_id x) (queue st)"
proof (cases "indexOf (queue st) x")
  case None
  then have "filter (\<lambda>y. op_id y \<noteq> op_id x) (queue st) = queue st"
    by (simp add: indexOf_None notin_ids)
  with None show ?thesis by (simp add: onAbort_def)
next
  case (Some n)
  assume "distinct (map op_id (queue st))"
  with Some show ?thesis by (simp add: onAbort_def indexOf_Some_splice)
qed

lemma settled_onAbort:
  "settled (onAbort x st) i =
     (if i = op_id x \<and> i \<in> op_id ` set (queue st) \<and> settled st i = None
      then Some (Rejected AbortError) else settled st i)"
proof (cases "indexOf (queue st) x")
  case None
  then have "onAbort x st = st" by (simp add: onAbort_def)
  moreover from None have "op_id x \<notin> op_id ` set (queue st)"
    by (simp add: indexOf_None)
  ultimately show ?thesis by auto
next
  case (Some n)
  then have "op_id x \<in> op_id ` set (queue st)"
    using indexOf_None [of "queue st" x] by simp
  with Some show ?thesis by (auto simp: onAbort_def settled_settle)
qed

lemma distinct_map_filter_ids: "distinct (map op_id q) \<Longrightarrow> distinct (map op_id (filter P q))"
  by (simp add: distinct_map_filter)

lemma wf_ids_onAbort: "wf_ids st \<Longrightarrow> wf_ids (onAbort x st)"
proof -
  assume w: "wf_ids st"
  then have d: "distinct (map op_id (queue st))" by (simp add: wf_ids_def)
  show ?thesis
    using w unfolding wf_ids_def
    by (auto simp: queue_onAbort [OF d] settled_onAbort distinct_map_filter_ids notin_ids)
qed

lemma wf_abort: "wf st \<Longrightarrow> wf (abort s st)"
  by (simp add: wf_cong [of "abort s st" st])

lemma watcher_enabled:
  "x \<in> set (listeners st) \<Longrightarrow> signal_aborted (signal x) st
   \<Longrightarrow> watcher x st = onAbort x (removeEventListener x st)"
  by (simp add: watcher_def)

lemma watcher_disabled:
  "\<not> (x \<in> set (listeners st) \<and> signal_aborted (signal x) st) \<Longrightarrow> watcher x st = st"
  by (auto simp: watcher_def)

lemma queue_watcher:
  assumes "distinct (map op_id (queue st))"
  shows "queue (watcher x st) = queue st
       \<or> queue (watcher x st) = filter (\<lambda>y. op_id y \<noteq> op_id x) (queue st)"
proof (cases "x \<in> set (listeners st) \<and> signal_aborted (signal x) st")
  case True
  then have "watcher x st = onAbort x (removeEventListener x st)"
    by (simp add: watcher_enabled)
  with queue_onAbort [of "removeEventListener x st" x] assms show ?thesis by simp
next
  case False
  then show ?thesis by (simp add: watcher_disabled)
qed

lemma wf_watcher: "wf st \<Longrightarrow> wf (watcher x st)"
proof (cases "x \<in> set (listeners st) \<and> signal_aborted (signal x) st")
  case False
  then show "wf st \<Longrightarrow> wf (watcher x st)" by (simp add: watcher_disabled)
next
  case True
  assume w: "wf st"
  let ?st1 = "removeEventListener x st"
  from True have eq: "watcher x st = onAbort x ?st1" by (simp add: watcher_enabled)
  from w have d: "distinct (map op_id (queue ?st1))" by (simp add: wf_def wf_ids_def)
  from w have "wf_ids ?st1" by (simp add: wf_def wf_ids_cong [of ?st1 st])
  then have i2: "wf_ids (onAbort x ?st1)" by (rule wf_ids_onAbort)
  have q: "queue (onAbort x ?st1) = filter (\<lambda>y. op_id y \<noteq> op_id x) (queue st)"
    using queue_onAbort [OF d, of x] by simp
  have "wf_signals (onAbort x ?st1)"
    unfolding wf_signals_def
  proof (intro ballI impI)
    fix y
    assume y: "y \<in> set (queue (onAbort x ?st1))" and sg: "signal y \<noteq> None"
    from y q have yq: "y \<in> set (queue st)" and yx: "op_id y \<noteq> op_id x" by auto
    from w yq sg have "y \<in> set (listeners st)" by (simp add: wf_def wf_signals_def)
    with yx show "y \<in> set (listeners (onAbort x ?st1))"
      by (simp add: removeEventListener_def split: option.splits)
  qed
  with i2 show "wf (watcher x st)" by (simp add: eq wf_def)
qed

lemma wf_clearOne: "wf st \<Longrightarrow> wf (clearOne rej st)"
proof (cases "queue st")
  case Nil
  then show "wf st \<Longrightarrow> wf (clearOne rej st)" by (simp add: clearOne_def)
next
  case (Cons x rest)
  assume w: "wf st"
  let ?st1 = "removeEventListener x (st\<lparr>queue := rest\<rparr>)"
  from w Cons have x: "\<forall>y\<in>set rest. op_id y \<noteq> op_id x" "op_id x < next_id st"
    by (auto simp: wf_def wf_ids_def notin_ids)
  from w Cons have i1: "wf_ids ?st1"
    by (auto simp: wf_def wf_ids_def notin_ids)
  from w Cons x have s1: "wf_signals ?st1"
    by (auto simp: wf_def wf_signals_def removeEventListener_def split: option.splits)
  have "wf_ids (settle (op_id x) (Rejected QueueClearedError) ?st1)"
    using i1 x by (intro wf_ids_settle) auto
  moreover have "wf_signals (settle (op_id x) (Rejected QueueClearedError) ?st1)"
    using s1 by (simp add: wf_signals_def)
  ultimately show "wf (clearOne rej st)"
    using i1 s1 by (simp add: clearOne_def Cons Let_def wf_def)
qed

lemma wf_clearQueue: "wf st \<Longrightarrow> wf (clearQueue rej st)"
proof -
  assume w: "wf st"
  let ?st1 = "if refillTimeoutId st \<noteq> None then st\<lparr>refillTimeoutId := None\<rparr> else st"
  have "wf ?st1 = wf st" by (rule wf_cong) simp_all
  with w have "wf ?st1" by simp
  then have 1: "wf (clearLoop rej ?st1)"
    by (rule clearLoop_preserves [rotated]) (rule wf_clearOne)
  have "wf (clearQueue rej st) = wf (clearLoop rej ?st1)"
    unfolding clearQueue_def Let_def by (rule wf_cong) simp_all
  with 1 show ?thesis by simp
qed

lemma set_insert_op [simp]: "set (insert_op x q) = insert x (set q)"
  by (induction q) auto

lemma distinct_insert_op:
  "distinct (map op_id (insert_op x q)) \<longleftrightarrow> op_id x \<notin> op_id ` set q \<and> distinct (map op_id q)"
  by (induction q) auto

lemma wf_enqueue: "wf st \<Longrightarrow> wf (enqueue prio sg now st)"
proof -
  assume w: "wf st"
  let ?i = "next_id st"
  let ?st0 = "st\<lparr>next_id := Suc ?i\<rparr>"
  let ?x = "\<lparr>op_id = ?i, priority = prio, signal = sg\<rparr>"
  let ?st1 = "case sg of None \<Rightarrow> ?st0 | Some s \<Rightarrow> ?st0\<lparr>listeners := listeners ?st0 @ [?x]\<rparr>"
  let ?st2 = "?st1\<lparr>queue := insert_op ?x (queue ?st1)\<rparr>"
  from w have fresh: "\<forall>y\<in>set (queue st). op_id y \<noteq> ?i" "\<forall>y\<in>set (running st). op_id y \<noteq> ?i"
    "settled st ?i = None"
    by (auto simp: wf_def wf_ids_def)
  from w have i0: "wf_ids ?st0"
    by (auto simp: wf_def wf_ids_def)
  from w have s0: "wf_signals ?st0"
    by (simp add: wf_def wf_signals_def)
  have rej: "wf (settle ?i e ?st0)" for e
  proof -
    have "wf_ids (settle ?i e ?st0)"
      using i0 fresh by (intro wf_ids_settle) (auto simp: notin_ids)
    moreover have "wf_signals (settle ?i e ?st0)"
      using s0 by (simp add: wf_signals_def)
    ultimately show ?thesis by (simp add: wf_def)
  qed
  have acc: "wf ?st2" if na: "\<not> signal_aborted sg ?st0"
  proof -
    have "wf_ids ?st2"
      using i0 fresh unfolding wf_ids_def
      by (auto simp: distinct_insert_op notin_ids split: option.splits)
    moreover have "wf_signals ?st2"
      using s0 unfolding wf_signals_def
      by (auto split: option.splits)
    ultimately show ?thesis by (simp add: wf_def)
  qed
  show ?thesis
    unfolding enqueue_def Let_def using rej acc by (simp add: wf_processQueue)
qed

lemma wf_complete: "wf st \<Longrightarrow> wf (complete i out now st)"
proof (cases "i \<in> op_id ` set (running st)")
  case False
  then show "wf st \<Longrightarrow> wf (complete i out now st)" by (simp add: complete_def)
next
  case True
  assume w: "wf st"
  let ?st2 = "st\<lparr>running := filter (\<lambda>y. op_id y \<noteq> i) (running st),
                   activeCount := activeCount st - 1\<rparr>"
  from True obtain r where r: "r \<in> set (running st)" "op_id r = i" by auto
  from w have "\<forall>x\<in>set (queue st). \<forall>y\<in>set (running st). op_id x \<noteq> op_id y"
    by (simp add: wf_def wf_ids_def)
  with r have "\<forall>x\<in>set (queue st). op_id x \<noteq> i" by metis
  moreover from w r have "i < next_id st"
    by (auto simp: wf_def wf_ids_def)
  ultimately have i: "i \<notin> op_id ` set (queue st)" "i < next_id st"
    by (simp_all add: notin_ids)
  from w have "wf_ids ?st2"
    by (auto simp: wf_def wf_ids_def notin_ids)
  then have "wf_ids (settle i out ?st2)"
    using i by (intro wf_ids_settle) simp_all
  moreover from w have "wf_signals (settle i out ?st2)"
    by (simp add: wf_def wf_signals_def)
  ultimately have "wf (settle i out ?st2)" by (simp add: wf_def)
  then have "wf (processQueue now (settle i out ?st2))" by (rule wf_processQueue)
  moreover have "wf (checkIdle (processQueue now (settle i out ?st2)))
                 = wf (processQueue now (settle i out ?st2))"
    by (rule wf_cong) simp_all
  ultimately show "wf (complete i out now st)"
    using True by (simp add: complete_def Let_def)
qed

lemma wf_timerFire: "wf st \<Longrightarrow> wf (timerFire now st)"
proof (cases "refillTimeoutId st")
  case None
  then show "wf st \<Longrightarrow> wf (timerFire now st)" by (simp add: timerFire_def)
next
  case (Some due)
  assume w: "wf st"
  let ?st1 = "refillTokens now (st\<lparr>refillTimeoutId := None\<rparr>)"
  have "wf ?st1 = wf st" by (rule wf_cong) simp_all
  with w have "wf (processQueue now ?st1)" by (simp add: wf_processQueue)
  with Some show "wf (timerFire now st)" by (simp add: timerFire_def)
qed

lemma next_id_onIdle [simp]: "next_id (onIdle st) = Suc (next_id st)"
  by (simp add: onIdle_def Let_def)

lemma wf_onIdle: "wf st \<Longrightarrow> wf (onIdle st)"
  unfolding wf_def wf_ids_def wf_signals_def by (auto simp: less_Suc_eq)

lemma wf_step: "wf st \<Longrightarrow> wf (step st e)"
  by (cases e)
     (simp_all add: wf_enqueue wf_complete wf_abort wf_watcher wf_timerFire wf_clearQueue
        wf_onIdle)

lemma wf_createLimit: "createLimit options now = Inr st0 \<Longrightarrow> wf st0"
  using createLimit_Inr(2,3,7) [of options now st0]
  by (simp add: wf_def wf_ids_def wf_signals_def)

lemma wf_run: "createLimit options now = Inr st0 \<Longrightarrow> wf (run st0 evs)"
  by (rule run_preserves) (simp_all add: wf_step wf_createLimit)

subsection \<open>The token bucket and the refill timer\<close>

lemma processLoop_preserves_guard:
  assumes "\<And>s. P s \<Longrightarrow> queue s \<noteq> [] \<Longrightarrow> num_lt (Fin (activeCount s)) (concurrency s)
              \<Longrightarrow> num_lt (Fin 0) (tokens s) \<Longrightarrow> P (admit s)"
    and "P st"
  shows "P (processLoop st)"
  using assms(2)
proof (induction st rule: processLoop.induct)
  case (1 st)
  show ?case
  proof (cases "queue st \<noteq> [] \<and> num_lt (Fin (activeCount st)) (concurrency st) \<and> num_lt (Fin 0) (tokens st)")
    case True
    then have "processLoop st = processLoop (admit st)"
      by (subst processLoop.simps) simp
    moreover have "P (admit st)"
      using True "1.prems" by (intro assms(1)) simp_all
    ultimately show ?thesis using True "1.IH" by simp
  next
    case False
    then have "processLoop st = st"
      by (subst processLoop.simps) auto
    with 1 show ?thesis by simp
  qed
qed

lemma bucket_ok_cong:
  assumes "interval s' = interval s" "rate s' = rate s" "tokens s' = tokens s"
    "refillTimeoutId s' = refillTimeoutId s"
  shows "bucket_ok s' = bucket_ok s"
  by (simp add: bucket_ok_def assms split: option.splits)

lemma tokens_admit:
  "queue st \<noteq> [] \<Longrightarrow> tokens (admit st) = tokens st \<or> (rate st \<noteq> None \<and> tokens (admit st) = num_dec (tokens st))"
  by (cases "queue st") (auto simp: admit_def Let_def)

lemma bucket_ok_admit:
  assumes "bucket_ok st" "queue st \<noteq> []" "num_lt (Fin 0) (tokens st)"
  shows "bucket_ok (admit st)"
proof (cases "rate st")
  case None
  with tokens_admit [OF assms(2)] have "tokens (admit st) = tokens st" by auto
  with assms(1) show ?thesis by (simp add: bucket_ok_cong [of "admit st" st])
next
  case (Some r)
  with assms(1) obtain t where t: "tokens st = Fin t" "0 \<le> t" "t \<le> r" "0 < r" "0 < interval st"
    by (auto simp: bucket_ok_def)
  with assms(3) have "0 < t" by simp
  with t tokens_admit [OF assms(2)] have "\<exists>t'. tokens (admit st) = Fin t' \<and> 0 \<le> t' \<and> t' \<le> r"
    by auto
  with Some t show ?thesis by (simp add: bucket_ok_def)
qed

lemma periods_pos: "0 < (i::int) \<Longrightarrow> i \<le> e \<Longrightarrow> 1 \<le> e div i"
  by (simp add: pos_imp_zdiv_pos_iff int_one_le_iff_zero_less)

lemma bucket_ok_refillTokens: "bucket_ok st \<Longrightarrow> bucket_ok (refillTokens now st)"
proof (cases "rate st")
  case None
  then show "bucket_ok st \<Longrightarrow> bucket_ok (refillTokens now st)" by (simp add: refillTokens_def)
next
  case (Some r)
  assume b: "bucket_ok st"
  with Some obtain t where t: "tokens st = Fin t" "0 \<le> t" "t \<le> r" "0 < r" "0 < interval st"
    by (auto simp: bucket_ok_def)
  show "bucket_ok (refillTokens now st)"
  proof (cases "interval st \<le> now - lastRefill st")
    case False
    with Some b show ?thesis by (simp add: refillTokens_def)
  next
    case True
    let ?p = "(now - lastRefill st) div interval st"
    from True t have "1 \<le> ?p" by (simp add: periods_pos)
    with t have "0 \<le> r * ?p" by simp
    with t have "0 \<le> min r (t + r * ?p)" by simp
    moreover from True Some t
    have "tokens (refillTokens now st) = Fin (min r (t + r * ?p))"
      by (simp add: refillTokens_def Let_def)
    ultimately show ?thesis using Some t by (simp add: bucket_ok_def)
  qed
qed

lemma bucket_ok_processQueue: "bucket_ok st \<Longrightarrow> bucket_ok (processQueue now st)"
proof -
  assume "bucket_ok st"
  then have "bucket_ok (refillTokens now st)" by (rule bucket_ok_refillTokens)
  then have 1: "bucket_ok (processLoop (refillTokens now st))"
    by (rule processLoop_preserves_guard [rotated]) (rule bucket_ok_admit)
  let ?st1 = "processLoop (refillTokens now st)"
  have 2: "bucket_ok (scheduleRefill now ?st1)"
  proof (cases "rate ?st1")
    case None
    then have "scheduleRefill now ?st1 = ?st1" by (simp add: scheduleRefill_def)
    with 1 show ?thesis by simp
  next
    case (Some r)
    with 1 show ?thesis by (simp add: bucket_ok_def)
  qed
  have "bucket_ok (processQueue now st)
        = bucket_ok (if queue ?st1 \<noteq> [] \<and> num_le (tokens ?st1) (Fin 0)
                     then scheduleRefill now ?st1 else ?st1)"
    unfolding processQueue_def Let_def by (rule bucket_ok_cong) simp_all
  with 1 2 show ?thesis by simp
qed

lemma timer_ok_processQueue: "bucket_ok st \<Longrightarrow> timer_ok (processQueue now st)"
proof -
  assume b: "bucket_ok st"
  let ?st1 = "processLoop (refillTokens now st)"
  have 1: "bucket_ok ?st1"
    using bucket_ok_refillTokens [OF b]
    by (rule processLoop_preserves_guard [rotated]) (rule bucket_ok_admit)
  have "timer_ok (checkIdle (scheduleRefill now ?st1))"
    if "queue ?st1 \<noteq> []" "num_le (tokens ?st1) (Fin 0)"
  proof (cases "rate ?st1")
    case None
    with 1 that show ?thesis by (simp add: bucket_ok_def)
  next
    case (Some r)
    with that show ?thesis by (simp add: timer_ok_def scheduleRefill_def Let_def)
  qed
  moreover have "timer_ok (checkIdle ?st1)"
    if "\<not> (queue ?st1 \<noteq> [] \<and> num_le (tokens ?st1) (Fin 0))"
    using that by (auto simp: timer_ok_def)
  ultimately show ?thesis
    unfolding processQueue_def Let_def by auto
qed

lemma timer_ok_cong:
  assumes "queue s' = queue s" "tokens s' = tokens s" "refillTimeoutId s' = refillTimeoutId s"
  shows "timer_ok s' = timer_ok s"
  by (simp add: timer_ok_def assms)

lemma queue_clearLoop [simp]: "queue (clearLoop rej st) = []"
proof (induction rej st rule: clearLoop.induct)
  case (1 rej st)
  show ?case
  proof (cases "queue st \<noteq> []")
    case True
    then have "clearLoop rej st = clearLoop rej (clearOne rej st)"
      by (subst clearLoop.simps) simp
    with True "1.IH" show ?thesis by simp
  next
    case False
    then have "clearLoop rej st = st"
      by (subst clearLoop.simps) auto
    with False show ?thesis by simp
  qed
qed

lemma queue_clearQueue [simp]: "queue (clearQueue rej st) = []"
  by (simp add: clearQueue_def Let_def)

lemma refillTimeoutId_clearQueue [simp]: "refillTimeoutId (clearQueue rej st) = None"
  by (simp add: clearQueue_def Let_def)

lemma queue_watcher_Nil: "queue st = [] \<Longrightarrow> queue (watcher x st) = []"
  by (simp add: watcher_def onAbort_def)

lemma bucket_ok_step: "bucket_ok st \<Longrightarrow> bucket_ok (step st e)"
proof (cases e)
  case (Submit prio sg now)
  assume b: "bucket_ok st"
  let ?st0 = "st\<lparr>next_id := Suc (next_id st)\<rparr>"
  let ?x = "\<lparr>op_id = next_id st, priority = prio, signal = sg\<rparr>"
  let ?st1 = "case sg of None \<Rightarrow> ?st0 | Some s \<Rightarrow> ?st0\<lparr>listeners := listeners ?st0 @ [?x]\<rparr>"
  let ?st2 = "?st1\<lparr>queue := insert_op ?x (queue ?st1)\<rparr>"
  have "bucket_ok (settle (next_id st) r ?st0) = bucket_ok st" for r
    by (rule bucket_ok_cong) simp_all
  moreover have "bucket_ok ?st2 = bucket_ok st"
    by (rule bucket_ok_cong) (simp_all split: option.splits)
  ultimately show ?thesis
    using b Submit by (simp add: enqueue_def Let_def bucket_ok_processQueue)
next
  case (Complete i out now)
  assume b: "bucket_ok st"
  let ?st3 = "settle i out (st\<lparr>running := filter (\<lambda>y. op_id y \<noteq> i) (running st),
                                 activeCount := activeCount st - 1\<rparr>)"
  have "bucket_ok ?st3 = bucket_ok st"
    by (rule bucket_ok_cong) simp_all
  with b have "bucket_ok (processQueue now ?st3)" by (simp add: bucket_ok_processQueue)
  moreover have "bucket_ok (checkIdle (processQueue now ?st3)) = bucket_ok (processQueue now ?st3)"
    by (rule bucket_ok_cong) simp_all
  ultimately show ?thesis
    using b Complete by (simp add: complete_def Let_def)
next
  case (Abort s)
  assume b: "bucket_ok st"
  have "bucket_ok (abort s st) = bucket_ok st"
    by (rule bucket_ok_cong) simp_all
  with b Abort show ?thesis by simp
next
  case (Watcher x)
  assume b: "bucket_ok st"
  have "bucket_ok (watcher x st) = bucket_ok st"
    by (rule bucket_ok_cong) simp_all
  with b Watcher show ?thesis by simp
next
  case (TimerFire now)
  assume b: "bucket_ok st"
  then have "bucket_ok (st\<lparr>refillTimeoutId := None\<rparr>)"
    by (simp add: bucket_ok_def split: option.splits)
  then have "bucket_ok (processQueue now (refillTokens now (st\<lparr>refillTimeoutId := None\<rparr>)))"
    by (intro bucket_ok_processQueue bucket_ok_refillTokens)
  with b TimerFire show ?thesis by (simp add: timerFire_def split: option.splits)
next
  case (ClearQueue rej)
  assume b: "bucket_ok st"
  then show ?thesis
    using ClearQueue by (simp add: bucket_ok_def split: option.splits)
next
  case OnIdle
  assume b: "bucket_ok st"
  have "bucket_ok (onIdle st) = bucket_ok st"
    by (rule bucket_ok_cong) simp_all
  with b OnIdle show ?thesis by simp
qed

lemma timer_ok_step: "bucket_ok st \<Longrightarrow> timer_ok st \<Longrightarrow> timer_ok (step st e)"
proof (cases e)
  case (Submit prio sg now)
  assume b: "bucket_ok st" and t: "timer_ok st"
  let ?st0 = "st\<lparr>next_id := Suc (next_id st)\<rparr>"
  let ?x = "\<lparr>op_id = next_id st, priority = prio, signal = sg\<rparr>"
  let ?st1 = "case sg of None \<Rightarrow> ?st0 | Some s \<Rightarrow> ?st0\<lparr>listeners := listeners ?st0 @ [?x]\<rparr>"
  let ?st2 = "?st1\<lparr>queue := insert_op ?x (queue ?st1)\<rparr>"
  have "timer_ok (settle (next_id st) r ?st0) = timer_ok st" for r
    by (rule timer_ok_cong) simp_all
  moreover have "bucket_ok ?st2 = bucket_ok st"
    by (rule bucket_ok_cong) (simp_all split: option.splits)
  ultimately show ?thesis
    using b t Submit by (simp add: enqueue_def Let_def timer_ok_processQueue)
next
  case (Complete i out now)
  assume b: "bucket_ok st" and t: "timer_ok st"
  let ?st3 = "settle i out (st\<lparr>running := filter (\<lambda>y. op_id y \<noteq> i) (running st),
                                 activeCount := activeCount st - 1\<rparr>)"
  have "bucket_ok ?st3 = bucket_ok st"
    by (rule bucket_ok_cong) simp_all
  with b have "timer_ok (processQueue now ?st3)" by (simp add: timer_ok_processQueue)
  moreover have "timer_ok (checkIdle (processQueue now ?st3)) = timer_ok (processQueue now ?st3)"
    by (rule timer_ok_cong) simp_all
  ultimately show ?thesis
    using t Complete by (simp add: complete_def Let_def)
next
  case (Abort s)
  assume t: "timer_ok st"
  have "timer_ok (abort s st) = timer_ok st"
    by (rule timer_ok_cong) simp_all
  with t Abort show ?thesis by simp
next
  case (Watcher x)
  assume t: "timer_ok st"
  then have "timer_ok (watcher x st)"
    unfolding timer_ok_def using queue_watcher_Nil [of st x] by auto
  with Watcher show ?thesis by simp
next
  case (TimerFire now)
  assume b: "bucket_ok st" and t: "timer_ok st"
  from b have "bucket_ok (st\<lparr>refillTimeoutId := None\<rparr>)"
    by (simp add: bucket_ok_def split: option.splits)
  then have "timer_ok (processQueue now (refillTokens now (st\<lparr>refillTimeoutId := None\<rparr>)))"
    by (intro timer_ok_processQueue bucket_ok_refillTokens)
  with t TimerFire show ?thesis by (simp add: timerFire_def split: option.splits)
next
  case (ClearQueue rej)
  then show ?thesis by (simp add: timer_ok_def)
next
  case OnIdle
  assume t: "timer_ok st"
  have "timer_ok (onIdle st) = timer_ok st"
    by (rule timer_ok_cong) simp_all
  with t OnIdle show ?thesis by simp
qed

lemma bucket_ok_createLimit: "createLimit options now = Inr st0 \<Longrightarrow> bucket_ok st0"
  using createLimit_Inr(4,14,15,16) [of options now st0]
  by (auto simp: bucket_ok_def split: option.splits)

lemma bucket_ok_run: "createLimit options now = Inr st0 \<Longrightarrow> bucket_ok (run st0 evs)"
  by (rule run_preserves) (simp_all add: bucket_ok_step bucket_ok_createLimit)

lemma timer_ok_run:
  assumes "createLimit options now = Inr st0"
  shows "timer_ok (run st0 evs)"
proof -
  have "bucket_ok (run st0 evs) \<and> timer_ok (run st0 evs)"
  proof (rule run_preserves [where P = "\<lambda>s. bucket_ok s \<and> timer_ok s"])
    show "bucket_ok st0 \<and> timer_ok st0"
      using bucket_ok_createLimit [OF assms] createLimit_Inr(2) [OF assms]
      by (simp add: timer_ok_def)
  qed (simp add: bucket_ok_step timer_ok_step)
  then show ?thesis by simp
qed

lemma createLimit_unlimited: "createLimit unlimited_options 0 = Inr unlimited_limiter"
  by (simp add: createLimit_def unlimited_options_def unlimited_limiter_def Let_def)

lemma refill_anchor:
  fixes i e :: int
  assumes "0 < i"
  shows "l + (e div i) * i \<le> l + e" and "l + e < l + (e div i) * i + i"
proof -
  have "e = (e div i) * i + e mod i" by simp
  moreover have "0 \<le> e mod i" "e mod i < i" using assms by simp_all
  ultimately show "l + (e div i) * i \<le> l + e" and "l + e < l + (e div i) * i + i"
    by linarith+
qed

text \<open>
  Claim C4. In a limiter with rate \<open>r\<close>, \<^verbatim>\<open>refillTokens\<close> at time \<open>now\<close> computes
  \<open>periods = floor (elapsed / interval)\<close> for \<open>elapsed = now - lastRefill\<close>. If
  \<open>elapsed \<ge> interval\<close> then \<open>periods \<ge> 1\<close>, \<open>tokens\<close> becomes
  \<open>min r (tokens + r * periods)\<close> and \<open>lastRefill\<close> advances by exactly
  \<open>periods * interval\<close>, which leaves it on the grid of period boundaries, at the last
  boundary not after \<open>now\<close>, and nothing else changes. If \<open>elapsed < interval\<close> the state
  is unchanged. With no rate configured \<open>tokens\<close> is \<^verbatim>\<open>Infinity\<close> and the refill does
  nothing.
\<close>

theorem C4_refillTokens:
  assumes "createLimit options t0 = Inr st0" and "st = run st0 evs"
  shows "(rate st = None \<longrightarrow> tokens st = Infinity \<and> refillTokens now st = st)
    \<and> (rate st = Some r \<and> now - lastRefill st < interval st \<longrightarrow> refillTokens now st = st)
    \<and> (rate st = Some r \<and> interval st \<le> now - lastRefill st \<longrightarrow>
         1 \<le> (now - lastRefill st) div interval st
         \<and> refillTokens now st =
             st\<lparr>tokens := num_min (Fin r)
                        (num_add (tokens st) (Fin (r * ((now - lastRefill st) div interval st)))),
                lastRefill := lastRefill st + ((now - lastRefill st) div interval st) * interval st\<rparr>
         \<and> lastRefill (refillTokens now st) \<le> now
         \<and> now < lastRefill (refillTokens now st) + interval st)"
proof -
  have b: "bucket_ok st"
    using assms by (simp add: bucket_ok_run)
  then have i: "0 < interval st" by (simp add: bucket_ok_def)
  have 1: "rate st = None \<longrightarrow> tokens st = Infinity \<and> refillTokens now st = st"
    using b by (auto simp: bucket_ok_def refillTokens_def)
  have 2: "rate st = Some r \<and> now - lastRefill st < interval st \<longrightarrow> refillTokens now st = st"
    by (simp add: refillTokens_def)
  let ?p = "(now - lastRefill st) div interval st"
  let ?st' = "st\<lparr>tokens := num_min (Fin r) (num_add (tokens st) (Fin (r * ?p))),
                  lastRefill := lastRefill st + ?p * interval st\<rparr>"
  have 3: "1 \<le> ?p \<and> refillTokens now st = ?st' \<and> lastRefill (refillTokens now st) \<le> now
           \<and> now < lastRefill (refillTokens now st) + interval st"
    if r: "rate st = Some r" and e: "interval st \<le> now - lastRefill st"
  proof -
    have eq: "refillTokens now st = ?st'"
      using r e by (simp add: refillTokens_def Let_def)
    have "1 \<le> ?p" using i e by (rule periods_pos)
    moreover have "lastRefill ?st' \<le> now" "now < lastRefill ?st' + interval st"
      using refill_anchor [OF i, of "lastRefill st" "now - lastRefill st"] by simp_all
    ultimately show ?thesis using eq by simp
  qed
  from 1 2 3 show ?thesis by blast
qed

theorem C4_witness:
  "createLimit unlimited_options 0 = Inr unlimited_limiter
   \<and> rate (run unlimited_limiter [Submit 0 None 5]) = None
   \<and> tokens (run unlimited_limiter [Submit 0 None 5]) = Infinity
   \<and> refillTokens 7000 (run unlimited_limiter [Submit 0 None 5]) = run unlimited_limiter [Submit 0 None 5]
   \<and> createLimit example_options 0 = Inr example_limiter
   \<and> rate (run example_limiter [Submit 0 None 5]) = Some 1
   \<and> 99 - lastRefill (run example_limiter [Submit 0 None 5]) < interval (run example_limiter [Submit 0 None 5])
   \<and> refillTokens 99 (run example_limiter [Submit 0 None 5]) = run example_limiter [Submit 0 None 5]
   \<and> interval (run example_limiter [Submit 0 None 5]) \<le> 250 - lastRefill (run example_limiter [Submit 0 None 5])
   \<and> tokens (refillTokens 250 (run example_limiter [Submit 0 None 5])) = Fin 1
   \<and> lastRefill (refillTokens 250 (run example_limiter [Submit 0 None 5])) = 200"
proof -
  have u: "rate (run unlimited_limiter [Submit 0 None 5]) = None"
    by simp (simp add: unlimited_limiter_def)
  have e: "rate (run example_limiter [Submit 0 None 5]) = Some 1"
    "lastRefill (run example_limiter [Submit 0 None 5]) = 0"
    "interval (run example_limiter [Submit 0 None 5]) = 100"
    "tokens (run example_limiter [Submit 0 None 5]) = Fin 0"
    by (simp_all add: eval_defs)
  note a = C4_refillTokens [OF createLimit_unlimited refl, of "[Submit 0 None 5]" 7000 0]
  note b = C4_refillTokens [OF createLimit_example refl, of "[Submit 0 None 5]" 99 1]
  note c = C4_refillTokens [OF createLimit_example refl, of "[Submit 0 None 5]" 250 1]
  from a u have "tokens (run unlimited_limiter [Submit 0 None 5]) = Infinity
    \<and> refillTokens 7000 (run unlimited_limiter [Submit 0 None 5]) = run unlimited_limiter [Submit 0 None 5]"
    by blast
  moreover from b e have "refillTokens 99 (run example_limiter [Submit 0 None 5])
     = run example_limiter [Submit 0 None 5]"
    by simp
  moreover from c e have "tokens (refillTokens 250 (run example_limiter [Submit 0 None 5])) = Fin 1
     \<and> lastRefill (refillTokens 250 (run example_limiter [Submit 0 None 5])) = 200"
    by simp
  ultimately show ?thesis
    using u e createLimit_unlimited createLimit_example by simp
qed

lemma processQueue_arms:
  assumes "refillTimeoutId (processQueue now st) \<noteq> refillTimeoutId st"
  shows "queue (processQueue now st) \<noteq> [] \<and> num_le (tokens (processQueue now st)) (Fin 0)"
proof -
  let ?st1 = "processLoop (refillTokens now st)"
  have t1: "refillTimeoutId ?st1 = refillTimeoutId st" by simp
  show ?thesis
  proof (cases "queue ?st1 \<noteq> [] \<and> num_le (tokens ?st1) (Fin 0)")
    case True
    then have "processQueue now st = checkIdle (scheduleRefill now ?st1)"
      by (simp add: processQueue_def Let_def)
    with True show ?thesis by simp
  next
    case False
    then have "processQueue now st = checkIdle ?st1"
      by (auto simp: processQueue_def Let_def)
    with assms t1 show ?thesis by simp
  qed
qed

lemma step_arms:
  assumes "refillTimeoutId (step st e) \<noteq> None"
  shows "refillTimeoutId (step st e) = refillTimeoutId st
       \<or> (queue (step st e) \<noteq> [] \<and> num_le (tokens (step st e)) (Fin 0))"
proof (cases e)
  case (Submit prio sg now)
  let ?st0 = "st\<lparr>next_id := Suc (next_id st)\<rparr>"
  let ?x = "\<lparr>op_id = next_id st, priority = prio, signal = sg\<rparr>"
  let ?st1 = "case sg of None \<Rightarrow> ?st0 | Some s \<Rightarrow> ?st0\<lparr>listeners := listeners ?st0 @ [?x]\<rparr>"
  let ?st2 = "?st1\<lparr>queue := insert_op ?x (queue ?st1)\<rparr>"
  have t2: "refillTimeoutId ?st2 = refillTimeoutId st" by (simp split: option.splits)
  show ?thesis
  proof (cases "enqueue prio sg now st = processQueue now ?st2")
    case True
    with processQueue_arms [of now ?st2] t2 Submit show ?thesis by auto
  next
    case False
    then have "refillTimeoutId (enqueue prio sg now st) = refillTimeoutId st"
      by (auto simp: enqueue_def Let_def split: if_splits)
    with Submit show ?thesis by simp
  qed
next
  case (Complete i out now)
  let ?st3 = "settle i out (st\<lparr>running := filter (\<lambda>y. op_id y \<noteq> i) (running st),
                                 activeCount := activeCount st - 1\<rparr>)"
  show ?thesis
  proof (cases "i \<in> op_id ` set (running st)")
    case True
    then have "complete i out now st = checkIdle (processQueue now ?st3)"
      by (simp add: complete_def Let_def)
    with processQueue_arms [of now ?st3] Complete show ?thesis by auto
  next
    case False
    with Complete show ?thesis by (simp add: complete_def)
  qed
next
  case (Abort s)
  then show ?thesis by simp
next
  case (Watcher x)
  then show ?thesis by simp
next
  case (TimerFire now)
  show ?thesis
  proof (cases "refillTimeoutId st")
    case None
    with TimerFire show ?thesis by (simp add: timerFire_def)
  next
    case (Some due)
    let ?st1 = "refillTokens now (st\<lparr>refillTimeoutId := None\<rparr>)"
    from Some have eq: "timerFire now st = processQueue now ?st1"
      by (simp add: timerFire_def)
    from assms TimerFire eq have "refillTimeoutId (processQueue now ?st1) \<noteq> refillTimeoutId ?st1"
      by simp
    from processQueue_arms [OF this] TimerFire eq show ?thesis by simp
  qed
next
  case (ClearQueue rej)
  with assms show ?thesis by simp
next
  case OnIdle
  then show ?thesis by simp
qed

text \<open>
  Claim C3, as the code has it. After every event, if the queue is non-empty and no
  token is available then the refill timer is armed; a timer is only ever armed in a
  limiter with a rate; the number of tokens is never negative; \<^verbatim>\<open>clearQueue\<close> leaves
  no timer armed; and an event arms a timer only when it ends with a non-empty queue
  and no token. (A timer that was armed before the event may stay armed whatever the
  queue holds.)
\<close>

theorem C3_timer_armed_when_needed:
  assumes "createLimit options now = Inr st0" and "st = run st0 evs"
  shows "(queue st \<noteq> [] \<and> num_le (tokens st) (Fin 0) \<longrightarrow> refillTimeoutId st \<noteq> None)
       \<and> (refillTimeoutId st \<noteq> None \<longrightarrow> rate st \<noteq> None)
       \<and> num_le (Fin 0) (tokens st)
       \<and> refillTimeoutId (clearQueue rej st) = None
       \<and> (refillTimeoutId (step st e) \<noteq> None \<longrightarrow>
            refillTimeoutId (step st e) = refillTimeoutId st
            \<or> (queue (step st e) \<noteq> [] \<and> num_le (tokens (step st e)) (Fin 0)))"
proof -
  have b: "bucket_ok st" and t: "timer_ok st"
    using assms by (simp_all add: bucket_ok_run timer_ok_run)
  from b have "num_le (Fin 0) (tokens st)"
    by (auto simp: bucket_ok_def split: option.splits)
  moreover from b have "refillTimeoutId st \<noteq> None \<longrightarrow> rate st \<noteq> None"
    by (auto simp: bucket_ok_def split: option.splits)
  moreover have "refillTimeoutId (step st e) \<noteq> None \<longrightarrow>
            refillTimeoutId (step st e) = refillTimeoutId st
            \<or> (queue (step st e) \<noteq> [] \<and> num_le (tokens (step st e)) (Fin 0))"
    using step_arms [of st e] by blast
  ultimately show ?thesis
    using t by (simp add: timer_ok_def)
qed

theorem C3_witness:
  "createLimit example_options 0 = Inr example_limiter
   \<and> queue (run example_limiter [Submit 0 None 0, Submit 0 (Some 7) 0]) \<noteq> []
   \<and> num_le (tokens (run example_limiter [Submit 0 None 0, Submit 0 (Some 7) 0])) (Fin 0)
   \<and> refillTimeoutId (run example_limiter [Submit 0 None 0, Submit 0 (Some 7) 0]) \<noteq> None
   \<and> rate (run example_limiter [Submit 0 None 0, Submit 0 (Some 7) 0]) \<noteq> None
   \<and> refillTimeoutId (run example_limiter [Submit 0 None 0]) = None
   \<and> refillTimeoutId (step (run example_limiter [Submit 0 None 0]) (Submit 0 (Some 7) 0)) \<noteq> None
   \<and> queue (step (run example_limiter [Submit 0 None 0]) (Submit 0 (Some 7) 0)) \<noteq> []
   \<and> num_le (tokens (step (run example_limiter [Submit 0 None 0]) (Submit 0 (Some 7) 0))) (Fin 0)"
proof -
  let ?st = "run example_limiter [Submit 0 None 0, Submit 0 (Some 7) 0]"
  let ?st1 = "run example_limiter [Submit 0 None 0]"
  let ?e = "Submit 0 (Some 7) 0"
  have h: "queue ?st \<noteq> []" "num_le (tokens ?st) (Fin 0)"
    "refillTimeoutId ?st1 = None" "refillTimeoutId (step ?st1 ?e) \<noteq> None"
    by code_simp+
  note a = C3_timer_armed_when_needed [OF createLimit_example refl, of "[Submit 0 None 0, Submit 0 (Some 7) 0]"]
  note b = C3_timer_armed_when_needed [OF createLimit_example refl, of "[Submit 0 None 0]" _ ?e]
  from a h have 1: "refillTimeoutId ?st \<noteq> None" "rate ?st \<noteq> None"
    by blast+
  from b h have 2: "queue (step ?st1 ?e) \<noteq> [] \<and> num_le (tokens (step ?st1 ?e)) (Fin 0)"
    by (metis option.distinct(1))
  from 1 2 h createLimit_example show ?thesis by blast
qed

text \<open>
  Claim C3 as written fails: after two submissions (the first admitted, the second
  queued behind the spent token, which arms the timer), the signal of the second one is
  aborted and its watcher runs: the queue is empty and the timer is still armed.
\<close>

theorem C3_counterexample:
  "\<not> (refillTimeoutId (run example_limiter
           [Submit 0 None 0, Submit 0 (Some 7) 0, Abort 7, Watcher \<lparr>op_id = 1, priority = 0, signal = Some 7\<rparr>]) \<noteq> None
      \<longleftrightarrow> queue (run example_limiter
           [Submit 0 None 0, Submit 0 (Some 7) 0, Abort 7, Watcher \<lparr>op_id = 1, priority = 0, signal = Some 7\<rparr>]) \<noteq> []
         \<and> tokens (run example_limiter
           [Submit 0 None 0, Submit 0 (Some 7) 0, Abort 7, Watcher \<lparr>op_id = 1, priority = 0, signal = Some 7\<rparr>]) = Fin 0)"
  by code_simp

text \<open>
  The same happens without any cancellation, when a completion at the boundary of the
  window refills the bucket and admits the last queued operation before the timer fires.
\<close>

lemma timer_armed_after_completion:
  "refillTimeoutId (run example_limiter [Submit 0 None 0, Submit 0 None 10, Complete 0 (Resolved 0) 100])
     = Some 100
   \<and> queue (run example_limiter [Submit 0 None 0, Submit 0 None 10, Complete 0 (Resolved 0) 100]) = []"
  by code_simp

subsection \<open>Submission and cancellation\<close>

lemma signal_aborted_simps [simp]:
  "signal_aborted None st = False"
  "signal_aborted (Some s) st = (s \<in> aborted st)"
  by (simp_all add: signal_aborted_def)

lemma signal_aborted_cong: "aborted s' = aborted s \<Longrightarrow> signal_aborted sg s' = signal_aborted sg s"
  by (cases sg) simp_all

lemma wf_fresh: "wf st \<Longrightarrow> settled st (next_id st) = None"
  by (simp add: wf_def wf_ids_def)

lemma enqueue_aborted:
  assumes "wf st" "signal_aborted sg st"
  shows "enqueue prio sg now st =
           st\<lparr>next_id := Suc (next_id st),
              settled := (settled st)(next_id st \<mapsto> Rejected AbortError)\<rparr>"
proof -
  have "signal_aborted sg (st\<lparr>next_id := Suc (next_id st)\<rparr>)"
    using assms(2) by (simp add: signal_aborted_cong [of "st\<lparr>next_id := Suc (next_id st)\<rparr>" st])
  then show ?thesis
    using wf_fresh [OF assms(1)] by (simp add: enqueue_def Let_def settle_def)
qed

lemma enqueue_full:
  assumes "wf st" "\<not> signal_aborted sg st"
    "num_le (maxQueueSize st) (Fin (int (length (queue st))))"
  shows "enqueue prio sg now st =
           st\<lparr>next_id := Suc (next_id st),
              settled := (settled st)(next_id st \<mapsto> Rejected QueueFullError)\<rparr>"
proof -
  have "\<not> signal_aborted sg (st\<lparr>next_id := Suc (next_id st)\<rparr>)"
    using assms(2) by (simp add: signal_aborted_cong [of "st\<lparr>next_id := Suc (next_id st)\<rparr>" st])
  then show ?thesis
    using assms(3) wf_fresh [OF assms(1)] by (simp add: enqueue_def Let_def settle_def)
qed

lemma in_flight_cong:
  assumes "queue s' = queue s" "running s' = running s" "aborted s' = aborted s"
    "settled s' = settled s"
  shows "in_flight x s' = in_flight x s"
  by (simp add: in_flight_def assms signal_aborted_cong [of s' s])

lemma in_flight_admit:
  assumes "wf st" "in_flight x st"
  shows "in_flight x (admit st)"
proof (cases "queue st")
  case Nil
  with assms(2) show ?thesis by (simp add: admit_def)
next
  case (Cons y rest)
  let ?st1 = "removeEventListener y (st\<lparr>queue := rest\<rparr>)"
  from assms(1) Cons have d: "\<forall>z\<in>set rest. op_id z \<noteq> op_id y"
    "\<forall>z\<in>set (running st). op_id y \<noteq> op_id z"
    by (auto simp: wf_def wf_ids_def notin_ids)
  show ?thesis
  proof (cases "signal_aborted (signal y) ?st1")
    case True
    then have eq: "admit st = settle (op_id y) (Rejected AbortError) ?st1"
      by (simp add: admit_def Cons Let_def)
    from True have "signal_aborted (signal y) st"
      by (simp add: signal_aborted_cong [of ?st1 st])
    with assms(2) have "x \<noteq> y"
      by (auto simp: in_flight_def)
    with assms(2) Cons have m: "x \<in> set rest \<or> x \<in> set (running st)"
      by (auto simp: in_flight_def)
    with d have "op_id x \<noteq> op_id y" by metis
    moreover have "signal_aborted (signal x) (settle (op_id y) (Rejected AbortError) ?st1)
                   = signal_aborted (signal x) st"
      by (rule signal_aborted_cong) simp
    ultimately show ?thesis
      using m assms(2) by (simp add: eq in_flight_def settled_settle)
  next
    case False
    then have q: "queue (admit st) = rest" "running (admit st) = running st @ [y]"
      "settled (admit st) = settled st" "aborted (admit st) = aborted st"
      by (simp_all add: admit_def Cons Let_def)
    have "signal_aborted (signal x) (admit st) = signal_aborted (signal x) st"
      by (rule signal_aborted_cong) simp
    with assms(2) Cons show ?thesis
      by (auto simp: in_flight_def q)
  qed
qed

lemma in_flight_processQueue:
  assumes "wf st" "in_flight x st"
  shows "in_flight x (processQueue now st)"
proof -
  let ?st1 = "processLoop (refillTokens now st)"
  have "wf (refillTokens now st) = wf st" by (rule wf_cong) simp_all
  moreover have "in_flight x (refillTokens now st) = in_flight x st"
    by (rule in_flight_cong) simp_all
  ultimately have "wf (refillTokens now st) \<and> in_flight x (refillTokens now st)"
    using assms by simp
  then have "wf ?st1 \<and> in_flight x ?st1"
    by (rule processLoop_preserves [rotated]) (simp add: wf_admit in_flight_admit)
  moreover have "in_flight x (processQueue now st) = in_flight x ?st1"
    unfolding processQueue_def Let_def by (rule in_flight_cong) simp_all
  ultimately show ?thesis by simp
qed

lemma wf_inserted:
  assumes "wf st" "\<not> signal_aborted sg st"
  shows "wf ((case sg of None \<Rightarrow> st\<lparr>next_id := Suc (next_id st)\<rparr>
              | Some s \<Rightarrow> st\<lparr>next_id := Suc (next_id st),
                             listeners := listeners st @ [\<lparr>op_id = next_id st, priority = prio, signal = sg\<rparr>]\<rparr>)
             \<lparr>queue := insert_op \<lparr>op_id = next_id st, priority = prio, signal = sg\<rparr> (queue st)\<rparr>)"
    (is "wf ?st2")
proof -
  from assms(1) have fresh: "\<forall>y\<in>set (queue st). op_id y \<noteq> next_id st"
    "\<forall>y\<in>set (running st). op_id y \<noteq> next_id st" "settled st (next_id st) = None"
    by (auto simp: wf_def wf_ids_def)
  have "wf_ids ?st2"
  proof (cases sg)
    case None
    with assms(1) fresh show ?thesis
      unfolding wf_def wf_ids_def by (auto simp: distinct_insert_op notin_ids)
  next
    case (Some s)
    with assms(1) fresh show ?thesis
      unfolding wf_def wf_ids_def by (auto simp: distinct_insert_op notin_ids)
  qed
  moreover have "wf_signals ?st2"
  proof (cases sg)
    case None
    with assms(1) show ?thesis
      unfolding wf_def wf_signals_def by auto
  next
    case (Some s)
    with assms show ?thesis
      unfolding wf_def wf_signals_def by auto
  qed
  ultimately show ?thesis by (simp add: wf_def)
qed

lemma enqueue_queued:
  assumes "wf st" "\<not> signal_aborted sg st"
    "\<not> num_le (maxQueueSize st) (Fin (int (length (queue st))))"
  shows "in_flight \<lparr>op_id = next_id st, priority = prio, signal = sg\<rparr> (enqueue prio sg now st)"
proof -
  let ?x = "\<lparr>op_id = next_id st, priority = prio, signal = sg\<rparr>"
  let ?st2 = "(case sg of None \<Rightarrow> st\<lparr>next_id := Suc (next_id st)\<rparr>
              | Some s \<Rightarrow> st\<lparr>next_id := Suc (next_id st), listeners := listeners st @ [?x]\<rparr>)
             \<lparr>queue := insert_op ?x (queue st)\<rparr>"
  have na: "\<not> signal_aborted sg (st\<lparr>next_id := Suc (next_id st)\<rparr>)"
    using assms(2) by (simp add: signal_aborted_cong [of "st\<lparr>next_id := Suc (next_id st)\<rparr>" st])
  have eq: "enqueue prio sg now st = processQueue now ?st2"
    using na assms(3) by (cases sg) (simp_all add: enqueue_def Let_def)
  have w2: "wf ?st2" using assms(1,2) by (rule wf_inserted)
  have "in_flight ?x ?st2"
    using assms(2) wf_fresh [OF assms(1)]
    by (cases sg) (simp_all add: in_flight_def)
  with w2 show ?thesis by (simp only: eq in_flight_processQueue)
qed

lemma onAbort_queued:
  assumes "wf_ids st" "x \<in> set (queue st)"
  shows "queue (onAbort x st) = filter (\<lambda>y. op_id y \<noteq> op_id x) (queue st)"
    and "x \<notin> set (queue (onAbort x st))"
    and "settled (onAbort x st) (op_id x) = Some (Rejected AbortError)"
proof -
  from assms(1) have d: "distinct (map op_id (queue st))" by (simp add: wf_ids_def)
  show q: "queue (onAbort x st) = filter (\<lambda>y. op_id y \<noteq> op_id x) (queue st)"
    using d by (rule queue_onAbort)
  then show "x \<notin> set (queue (onAbort x st))" by simp
  from assms have "settled st (op_id x) = None" by (simp add: wf_ids_def)
  moreover from assms(2) have "op_id x \<in> op_id ` set (queue st)" by simp
  ultimately show "settled (onAbort x st) (op_id x) = Some (Rejected AbortError)"
    by (simp add: settled_onAbort)
qed

lemma onAbort_left_queue: "op_id y \<notin> op_id ` set (queue st) \<Longrightarrow> onAbort y st = st"
  by (simp add: onAbort_def indexOf_None [symmetric])

lemma watcher_after_abort:
  assumes "wf st" "x \<in> set (queue st)" "signal x = Some s"
  shows "x \<in> set (listeners st)"
    and "x \<notin> set (queue (watcher x (abort s st)))"
    and "settled (watcher x (abort s st)) (op_id x) = Some (Rejected AbortError)"
proof -
  let ?st1 = "removeEventListener x (abort s st)"
  from assms show l: "x \<in> set (listeners st)" by (simp add: wf_def wf_signals_def)
  with assms(3) have eq: "watcher x (abort s st) = onAbort x ?st1"
    by (simp add: watcher_def abort_def)
  from assms(1) have w1: "wf_ids ?st1" by (simp add: wf_def wf_ids_cong [of ?st1 st])
  from assms(2) have x1: "x \<in> set (queue ?st1)" by simp
  from onAbort_queued(2) [OF w1 x1] show "x \<notin> set (queue (watcher x (abort s st)))"
    by (simp add: eq)
  from onAbort_queued(3) [OF w1 x1]
  show "settled (watcher x (abort s st)) (op_id x) = Some (Rejected AbortError)"
    by (simp add: eq)
qed

lemma settled_watcher_not_queued:
  assumes "i \<notin> op_id ` set (queue st)"
  shows "settled (watcher z st) i = settled st i"
  using assms by (simp add: watcher_def settled_onAbort)

lemma running_not_queued:
  assumes "wf st" "y \<in> set (running st)"
  shows "op_id y \<notin> op_id ` set (queue st)"
proof -
  from assms(1) have "\<forall>x\<in>set (queue st). \<forall>z\<in>set (running st). op_id x \<noteq> op_id z"
    by (simp add: wf_def wf_ids_def)
  with assms(2) have "\<forall>x\<in>set (queue st). op_id x \<noteq> op_id y" by metis
  then show ?thesis by (simp add: notin_ids)
qed

text \<open>
  Claim C5, as the code has it. In every reachable state: a submission whose signal is
  already aborted changes nothing but its own promise, which is rejected with
  \<^verbatim>\<open>AbortError\<close> (the queue, and so \<^verbatim>\<open>pendingCount\<close>, is as before). The watcher of an
  operation that is in the queue when the watcher runs takes it out, leaves the other
  queued operations in their order and rejects its promise with \<^verbatim>\<open>AbortError\<close>. A queued
  operation with a signal has its watcher registered, and when the signal fires and the
  watcher runs next, the operation is out of the queue and rejected with \<^verbatim>\<open>AbortError\<close>.
  The watcher of an operation that is no longer in the queue does nothing, and an
  operation that is running stays running with its promise untouched when a signal
  fires and when a watcher runs.
\<close>

theorem C5_cancellation:
  assumes "createLimit options t0 = Inr st0" and "st = run st0 evs"
  shows "(signal_aborted sg st \<longrightarrow>
            enqueue prio sg now st =
              st\<lparr>next_id := Suc (next_id st),
                 settled := (settled st)(next_id st \<mapsto> Rejected AbortError)\<rparr>
            \<and> queue (enqueue prio sg now st) = queue st
            \<and> settled (enqueue prio sg now st) (next_id st) = Some (Rejected AbortError))
       \<and> (x \<in> set (queue st) \<longrightarrow>
            queue (onAbort x st) = filter (\<lambda>y. op_id y \<noteq> op_id x) (queue st)
            \<and> x \<notin> set (queue (onAbort x st))
            \<and> settled (onAbort x st) (op_id x) = Some (Rejected AbortError))
       \<and> (x \<in> set (queue st) \<and> signal x = Some s \<longrightarrow>
            x \<in> set (listeners st)
            \<and> x \<notin> set (queue (watcher x (abort s st)))
            \<and> settled (watcher x (abort s st)) (op_id x) = Some (Rejected AbortError))
       \<and> (op_id y \<notin> op_id ` set (queue st) \<longrightarrow> onAbort y st = st)
       \<and> (y \<in> set (running st) \<longrightarrow>
            onAbort y st = st
            \<and> running (abort s st) = running st
            \<and> activeCount (abort s st) = activeCount st
            \<and> settled (abort s st) (op_id y) = settled st (op_id y)
            \<and> running (watcher z st) = running st
            \<and> activeCount (watcher z st) = activeCount st
            \<and> settled (watcher z st) (op_id y) = settled st (op_id y))"
proof -
  have w: "wf st" using assms by (simp add: wf_run)
  then have wi: "wf_ids st" by (simp add: wf_def)
  have 1: "enqueue prio sg now st =
              st\<lparr>next_id := Suc (next_id st),
                 settled := (settled st)(next_id st \<mapsto> Rejected AbortError)\<rparr>
            \<and> queue (enqueue prio sg now st) = queue st
            \<and> settled (enqueue prio sg now st) (next_id st) = Some (Rejected AbortError)"
    if "signal_aborted sg st"
    using enqueue_aborted [OF w that, of prio now] by simp
  have 2: "queue (onAbort x st) = filter (\<lambda>y. op_id y \<noteq> op_id x) (queue st)
            \<and> x \<notin> set (queue (onAbort x st))
            \<and> settled (onAbort x st) (op_id x) = Some (Rejected AbortError)"
    if "x \<in> set (queue st)"
    using onAbort_queued [OF wi that] by simp
  have 3: "x \<in> set (listeners st)
            \<and> x \<notin> set (queue (watcher x (abort s st)))
            \<and> settled (watcher x (abort s st)) (op_id x) = Some (Rejected AbortError)"
    if "x \<in> set (queue st)" "signal x = Some s"
    using watcher_after_abort [OF w that] by simp
  have 4: "onAbort y st = st" if "op_id y \<notin> op_id ` set (queue st)"
    using that by (rule onAbort_left_queue)
  have 5: "onAbort y st = st
            \<and> running (abort s st) = running st
            \<and> activeCount (abort s st) = activeCount st
            \<and> settled (abort s st) (op_id y) = settled st (op_id y)
            \<and> running (watcher z st) = running st
            \<and> activeCount (watcher z st) = activeCount st
            \<and> settled (watcher z st) (op_id y) = settled st (op_id y)"
    if "y \<in> set (running st)"
    using running_not_queued [OF w that]
    by (simp add: onAbort_left_queue settled_watcher_not_queued)
  from 1 2 3 4 5 show ?thesis by blast
qed

theorem C5_witness:
  "createLimit example_options 0 = Inr example_limiter
   \<and> signal_aborted (Some 3) (run example_limiter [Submit 0 None 0, Submit 0 (Some 7) 0, Abort 3])
   \<and> queue (enqueue 0 (Some 3) 0 (run example_limiter [Submit 0 None 0, Submit 0 (Some 7) 0, Abort 3]))
       = [\<lparr>op_id = 1, priority = 0, signal = Some 7\<rparr>]
   \<and> settled (enqueue 0 (Some 3) 0 (run example_limiter [Submit 0 None 0, Submit 0 (Some 7) 0, Abort 3])) 2
       = Some (Rejected AbortError)
   \<and> \<lparr>op_id = 1, priority = 0, signal = Some 7\<rparr>
       \<in> set (queue (run example_limiter [Submit 0 None 0, Submit 0 (Some 7) 0, Abort 3]))
   \<and> queue (onAbort \<lparr>op_id = 1, priority = 0, signal = Some 7\<rparr>
         (run example_limiter [Submit 0 None 0, Submit 0 (Some 7) 0, Abort 3])) = []
   \<and> settled (onAbort \<lparr>op_id = 1, priority = 0, signal = Some 7\<rparr>
         (run example_limiter [Submit 0 None 0, Submit 0 (Some 7) 0, Abort 3])) 1
       = Some (Rejected AbortError)
   \<and> \<lparr>op_id = 1, priority = 0, signal = Some 7\<rparr>
       \<in> set (listeners (run example_limiter [Submit 0 None 0, Submit 0 (Some 7) 0, Abort 3]))
   \<and> \<lparr>op_id = 1, priority = 0, signal = Some 7\<rparr>
       \<notin> set (queue (watcher \<lparr>op_id = 1, priority = 0, signal = Some 7\<rparr>
           (abort 7 (run example_limiter [Submit 0 None 0, Submit 0 (Some 7) 0, Abort 3]))))
   \<and> settled (watcher \<lparr>op_id = 1, priority = 0, signal = Some 7\<rparr>
         (abort 7 (run example_limiter [Submit 0 None 0, Submit 0 (Some 7) 0, Abort 3]))) 1
       = Some (Rejected AbortError)
   \<and> \<lparr>op_id = 0, priority = 0, signal = None\<rparr>
       \<in> set (running (run example_limiter [Submit 0 None 0, Submit 0 (Some 7) 0, Abort 3]))
   \<and> onAbort \<lparr>op_id = 0, priority = 0, signal = None\<rparr>
         (run example_limiter [Submit 0 None 0, Submit 0 (Some 7) 0, Abort 3])
       = run example_limiter [Submit 0 None 0, Submit 0 (Some 7) 0, Abort 3]"
proof -
  let ?st = "run example_limiter [Submit 0 None 0, Submit 0 (Some 7) 0, Abort 3]"
  let ?x = "\<lparr>op_id = 1, priority = 0, signal = Some 7\<rparr>"
  let ?y = "\<lparr>op_id = 0, priority = 0, signal = None\<rparr>"
  have h: "signal_aborted (Some 3) ?st" "?x \<in> set (queue ?st)" "signal ?x = Some 7"
    "?y \<in> set (running ?st)" "queue ?st = [?x]" "next_id ?st = 2" "op_id ?x = 1"
    "op_id ?y \<notin> op_id ` set (queue ?st)"
    by code_simp+
  from C5_cancellation [OF createLimit_example refl,
      where sg = "Some 3" and evs = "[Submit 0 None 0, Submit 0 (Some 7) 0, Abort 3]"
        and prio = 0 and now = 0 and x = ?x and s = 7 and y = ?y and z = ?x]
    h createLimit_example
  show ?thesis by simp
qed

text \<open>
  Claim C5 as written fails when something else takes the operation out of the queue
  between the firing of the signal and the run of its watcher. Two operations wait on
  signal \<open>7\<close> behind a running one. The signal fires and the watcher of the first runs;
  then a listener of the caller on the same signal calls \<^verbatim>\<open>clearQueue(true)\<close>. The second
  operation was queued when the signal fired, but its promise is rejected with
  \<^verbatim>\<open>QueueClearedError\<close>, and its watcher, taken off by \<^verbatim>\<open>clearQueue\<close>, changes nothing
  any more.
\<close>

theorem C5_counterexample:
  "\<lparr>op_id = 2, priority = 0, signal = Some 7\<rparr>
     \<in> set (queue (run serial_limiter
          [Submit 0 None 0, Submit 0 (Some 7) 0, Submit 0 (Some 7) 0, Abort 7]))
   \<and> settled (run serial_limiter
        [Submit 0 None 0, Submit 0 (Some 7) 0, Submit 0 (Some 7) 0, Abort 7,
         Watcher \<lparr>op_id = 1, priority = 0, signal = Some 7\<rparr>, ClearQueue True]) 1
       = Some (Rejected AbortError)
   \<and> settled (run serial_limiter
        [Submit 0 None 0, Submit 0 (Some 7) 0, Submit 0 (Some 7) 0, Abort 7,
         Watcher \<lparr>op_id = 1, priority = 0, signal = Some 7\<rparr>, ClearQueue True]) 2
       = Some (Rejected QueueClearedError)
   \<and> settled (run serial_limiter
        [Submit 0 None 0, Submit 0 (Some 7) 0, Submit 0 (Some 7) 0, Abort 7,
         Watcher \<lparr>op_id = 1, priority = 0, signal = Some 7\<rparr>, ClearQueue True,
         Watcher \<lparr>op_id = 2, priority = 0, signal = Some 7\<rparr>]) 2
       \<noteq> Some (Rejected AbortError)"
  by code_simp

text \<open>
  Claim C10. In every reachable state, a submission whose signal is already aborted
  and which finds the queue at \<^verbatim>\<open>maxQueueSize\<close> is rejected with \<^verbatim>\<open>AbortError\<close>, not with
  \<^verbatim>\<open>QueueFullError\<close>, and the queue is as before.
\<close>

theorem C10_aborted_before_full:
  assumes "createLimit options t0 = Inr st0" and "st = run st0 evs"
    and "signal_aborted sg st"
    and "num_le (maxQueueSize st) (Fin (int (length (queue st))))"
  shows "settled (enqueue prio sg now st) (next_id st) = Some (Rejected AbortError)
       \<and> settled (enqueue prio sg now st) (next_id st) \<noteq> Some (Rejected QueueFullError)
       \<and> queue (enqueue prio sg now st) = queue st"
proof -
  have w: "wf st" using assms(1,2) by (simp add: wf_run)
  show ?thesis
    using enqueue_aborted [OF w assms(3), of prio now] by simp
qed

theorem C10_witness:
  "createLimit example_options 0 = Inr example_limiter
   \<and> signal_aborted (Some 3) (run example_limiter [Submit 0 None 0, Submit 0 None 0, Abort 3])
   \<and> num_le (maxQueueSize (run example_limiter [Submit 0 None 0, Submit 0 None 0, Abort 3]))
        (Fin (int (length (queue (run example_limiter [Submit 0 None 0, Submit 0 None 0, Abort 3])))))
   \<and> settled (enqueue 5 (Some 3) 1 (run example_limiter [Submit 0 None 0, Submit 0 None 0, Abort 3])) 2
       = Some (Rejected AbortError)
   \<and> length (queue (enqueue 5 (Some 3) 1 (run example_limiter [Submit 0 None 0, Submit 0 None 0, Abort 3]))) = 1"
proof -
  let ?st = "run example_limiter [Submit 0 None 0, Submit 0 None 0, Abort 3]"
  have h: "signal_aborted (Some 3) ?st"
    "num_le (maxQueueSize ?st) (Fin (int (length (queue ?st))))"
    "next_id ?st = 2" "length (queue ?st) = 1"
    by code_simp+
  from C10_aborted_before_full [OF createLimit_example refl h(1,2), of 5 1] h createLimit_example
  show ?thesis by simp
qed

text \<open>
  Claim C6, as the code has it. In every reachable state of a limiter with
  \<^verbatim>\<open>maxQueueSize\<close> \<open>n\<close>, a submission whose signal is not already aborted and which finds
  \<open>n\<close> or more operations queued changes nothing but its own promise, which is rejected
  with \<^verbatim>\<open>QueueFullError\<close>: the queue, \<open>activeCount\<close>, the token bucket, the running
  operations and all other promises are as before. Such a submission that finds fewer
  than \<open>n\<close> operations queued is accepted: after the call it is in the queue or already
  running, and its promise is pending.
\<close>

theorem C6_queue_full:
  assumes "createLimit options t0 = Inr st0" and "st = run st0 evs"
    and "maxQueueSize st = Fin n"
    and "\<not> signal_aborted sg st"
  shows "(n \<le> int (length (queue st)) \<longrightarrow>
            enqueue prio sg now st =
              st\<lparr>next_id := Suc (next_id st),
                 settled := (settled st)(next_id st \<mapsto> Rejected QueueFullError)\<rparr>)
       \<and> (int (length (queue st)) < n \<longrightarrow>
            (\<lparr>op_id = next_id st, priority = prio, signal = sg\<rparr> \<in> set (queue (enqueue prio sg now st))
             \<or> \<lparr>op_id = next_id st, priority = prio, signal = sg\<rparr> \<in> set (running (enqueue prio sg now st)))
            \<and> settled (enqueue prio sg now st) (next_id st) = None)"
proof -
  have w: "wf st" using assms(1,2) by (simp add: wf_run)
  have 1: "enqueue prio sg now st =
              st\<lparr>next_id := Suc (next_id st),
                 settled := (settled st)(next_id st \<mapsto> Rejected QueueFullError)\<rparr>"
    if "n \<le> int (length (queue st))"
    using that assms(3) by (intro enqueue_full [OF w assms(4)]) simp
  have 2: "(\<lparr>op_id = next_id st, priority = prio, signal = sg\<rparr> \<in> set (queue (enqueue prio sg now st))
             \<or> \<lparr>op_id = next_id st, priority = prio, signal = sg\<rparr> \<in> set (running (enqueue prio sg now st)))
            \<and> settled (enqueue prio sg now st) (next_id st) = None"
    if "int (length (queue st)) < n"
  proof -
    from that assms(3) have "\<not> num_le (maxQueueSize st) (Fin (int (length (queue st))))"
      by simp
    from enqueue_queued [OF w assms(4) this, of prio now] show ?thesis
      by (simp add: in_flight_def)
  qed
  from 1 2 show ?thesis by blast
qed

theorem C6_witness:
  "createLimit example_options 0 = Inr example_limiter
   \<and> maxQueueSize (run example_limiter [Submit 0 None 0, Submit 0 None 0]) = Fin 1
   \<and> \<not> signal_aborted None (run example_limiter [Submit 0 None 0, Submit 0 None 0])
   \<and> 1 \<le> int (length (queue (run example_limiter [Submit 0 None 0, Submit 0 None 0])))
   \<and> settled (enqueue 0 None 0 (run example_limiter [Submit 0 None 0, Submit 0 None 0])) 2
       = Some (Rejected QueueFullError)
   \<and> queue (enqueue 0 None 0 (run example_limiter [Submit 0 None 0, Submit 0 None 0]))
       = queue (run example_limiter [Submit 0 None 0, Submit 0 None 0])
   \<and> maxQueueSize (run example_limiter [Submit 0 None 0]) = Fin 1
   \<and> int (length (queue (run example_limiter [Submit 0 None 0]))) < 1
   \<and> \<lparr>op_id = 1, priority = 0, signal = None\<rparr>
       \<in> set (queue (enqueue 0 None 0 (run example_limiter [Submit 0 None 0])))
   \<and> settled (enqueue 0 None 0 (run example_limiter [Submit 0 None 0])) 1 = None"
proof -
  let ?full = "run example_limiter [Submit 0 None 0, Submit 0 None 0]"
  let ?free = "run example_limiter [Submit 0 None 0]"
  have f: "maxQueueSize ?full = Fin 1" "\<not> signal_aborted None ?full"
    "1 \<le> int (length (queue ?full))" "next_id ?full = 2"
    by code_simp+
  have g: "maxQueueSize ?free = Fin 1" "\<not> signal_aborted None ?free"
    "int (length (queue ?free)) < 1" "next_id ?free = 1"
    "\<lparr>op_id = 1, priority = 0, signal = None\<rparr> \<notin> set (running (enqueue 0 None 0 ?free))"
    by code_simp+
  from C6_queue_full [OF createLimit_example refl f(1,2), of 0 0] f
  have 1: "settled (enqueue 0 None 0 ?full) 2 = Some (Rejected QueueFullError)
           \<and> queue (enqueue 0 None 0 ?full) = queue ?full"
    by simp
  from C6_queue_full [OF createLimit_example refl g(1,2), of 0 0] g
  have 2: "\<lparr>op_id = 1, priority = 0, signal = None\<rparr> \<in> set (queue (enqueue 0 None 0 ?free))
           \<and> settled (enqueue 0 None 0 ?free) 1 = None"
    by simp
  from 1 2 f g createLimit_example show ?thesis by simp
qed

text \<open>
  Claim C6 as written fails for a submission whose signal is already aborted: with
  one operation running and one queued (\<^verbatim>\<open>maxQueueSize\<close> is \<open>1\<close>), it is rejected with
  \<^verbatim>\<open>AbortError\<close>, not with \<^verbatim>\<open>QueueFullError\<close>.
\<close>

theorem C6_counterexample:
  "maxQueueSize (run example_limiter [Submit 0 None 0, Submit 0 None 0, Abort 3]) = Fin 1
   \<and> length (queue (run example_limiter [Submit 0 None 0, Submit 0 None 0, Abort 3])) = 1
   \<and> next_id (run example_limiter [Submit 0 None 0, Submit 0 None 0, Abort 3]) = 2
   \<and> settled (enqueue 0 (Some 3) 0 (run example_limiter [Submit 0 None 0, Submit 0 None 0, Abort 3])) 2
       \<noteq> Some (Rejected QueueFullError)
   \<and> settled (enqueue 0 (Some 3) 0 (run example_limiter [Submit 0 None 0, Submit 0 None 0, Abort 3])) 2
       = Some (Rejected AbortError)"
  by code_simp

subsection \<open>clearQueue\<close>

lemma clearLoop_Cons:
  "queue st = x # rest \<Longrightarrow> clearLoop rej st = clearLoop rej (clearOne rej st)"
  by (subst clearLoop.simps) simp

lemma clearLoop_Nil: "queue st = [] \<Longrightarrow> clearLoop rej st = st"
  by (subst clearLoop.simps) simp

lemma settled_clearOne_True:
  "queue st = x # rest \<Longrightarrow>
   settled (clearOne True st) i =
     (if i = op_id x \<and> settled st i = None then Some (Rejected QueueClearedError) else settled st i)"
  by (auto simp: clearOne_def Let_def settled_settle)

lemma settled_clearOne_False: "settled (clearOne False st) = settled st"
  by (cases "queue st") (simp_all add: clearOne_def Let_def)

lemma queue_clearOne: "queue st = x # rest \<Longrightarrow> queue (clearOne rej st) = rest"
  by (simp add: clearOne_def Let_def)

lemma settled_clearLoop_False: "settled (clearLoop False st) = settled st"
  by (rule clearLoop_preserves [where P = "\<lambda>s. settled s = settled st"])
     (simp_all add: settled_clearOne_False)

lemma settled_clearLoop_True:
  "rej \<Longrightarrow> settled (clearLoop rej st) i =
     (if i \<in> op_id ` set (queue st) \<and> settled st i = None
      then Some (Rejected QueueClearedError) else settled st i)"
proof (induction rej st rule: clearLoop.induct)
  case (1 rej st)
  show ?case
  proof (cases "queue st")
    case Nil
    then show ?thesis by (simp add: clearLoop_Nil)
  next
    case (Cons x rest)
    let ?st' = "clearOne rej st"
    from "1.prems" have r: "rej = True" by simp
    have ih: "settled (clearLoop rej ?st') i =
       (if i \<in> op_id ` set rest \<and> settled ?st' i = None
        then Some (Rejected QueueClearedError) else settled ?st' i)"
      using "1.IH" "1.prems" Cons by (simp add: queue_clearOne [OF Cons])
    have s': "settled ?st' i =
       (if i = op_id x \<and> settled st i = None then Some (Rejected QueueClearedError)
        else settled st i)"
      unfolding r using Cons by (rule settled_clearOne_True)
    show ?thesis
    proof (cases "i = op_id x")
      case True
      with ih s' Cons show ?thesis by (simp add: clearLoop_Cons [OF Cons])
    next
      case False
      with ih s' Cons show ?thesis by (simp add: clearLoop_Cons [OF Cons])
    qed
  qed
qed

lemma listeners_clearOne_subset: "set (listeners (clearOne rej st)) \<subseteq> set (listeners st)"
  by (cases "queue st")
     (auto simp: clearOne_def Let_def removeEventListener_def split: option.splits)

lemma listeners_clearOne_head:
  "queue st = x # rest \<Longrightarrow> signal x \<noteq> None \<Longrightarrow> x \<notin> set (listeners (clearOne rej st))"
  by (auto simp: clearOne_def Let_def removeEventListener_def)

lemma listeners_clearLoop:
  "x \<in> set (queue st) \<Longrightarrow> signal x \<noteq> None \<Longrightarrow> x \<notin> set (listeners (clearLoop rej st))"
proof (induction rej st rule: clearLoop.induct)
  case (1 rej st)
  from "1.prems" obtain y rest where Cons: "queue st = y # rest"
    by (cases "queue st") auto
  show ?case
  proof (cases "x = y")
    case True
    with Cons "1.prems" have "x \<notin> set (listeners (clearOne rej st))"
      by (simp add: listeners_clearOne_head)
    then have "x \<notin> set (listeners (clearLoop rej (clearOne rej st)))"
      by (rule clearLoop_preserves [rotated]) (use listeners_clearOne_subset in blast)
    then show ?thesis by (simp add: clearLoop_Cons [OF Cons])
  next
    case False
    with Cons "1.prems" have "x \<in> set (queue (clearOne rej st))"
      by (simp add: queue_clearOne [OF Cons])
    with "1.IH" "1.prems" Cons show ?thesis
      by (simp add: clearLoop_Cons [OF Cons])
  qed
qed

lemma clearQueue_alt:
  "clearQueue rej st = checkIdle (clearLoop rej (st\<lparr>refillTimeoutId := None\<rparr>))"
proof (cases "refillTimeoutId st")
  case None
  then have e: "st\<lparr>refillTimeoutId := None\<rparr> = st" by (cases st) simp
  from None have "clearQueue rej st = checkIdle (clearLoop rej st)"
    by (simp add: clearQueue_def Let_def)
  then show ?thesis by (simp only: e)
next
  case (Some due)
  then show ?thesis by (simp add: clearQueue_def Let_def)
qed

text \<open>
  Claim C7. In every reachable state, \<^verbatim>\<open>clearQueue(reject)\<close> empties the queue, so that
  \<^verbatim>\<open>pendingCount\<close> is \<open>0\<close>, and removes the abort listener of every operation it takes
  out; \<open>activeCount\<close> and the running operations are untouched. With \<^verbatim>\<open>reject = true\<close>
  the promise of every operation that was queued is rejected with \<^verbatim>\<open>QueueClearedError\<close>
  and no other promise changes; with \<^verbatim>\<open>reject = false\<close> no promise is settled.
\<close>

theorem C7_clearQueue:
  assumes "createLimit options t0 = Inr st0" and "st = run st0 evs"
  shows "queue (clearQueue rej st) = []
       \<and> activeCount (clearQueue rej st) = activeCount st
       \<and> running (clearQueue rej st) = running st
       \<and> (x \<in> set (queue st) \<longrightarrow>
            settled (clearQueue True st) (op_id x) = Some (Rejected QueueClearedError))
       \<and> (i \<notin> op_id ` set (queue st) \<longrightarrow> settled (clearQueue True st) i = settled st i)
       \<and> settled (clearQueue False st) = settled st
       \<and> (x \<in> set (queue st) \<and> signal x \<noteq> None \<longrightarrow> x \<notin> set (listeners (clearQueue rej st)))"
proof -
  have w: "wf st" using assms by (simp add: wf_run)
  have 1: "settled (clearQueue True st) (op_id x) = Some (Rejected QueueClearedError)"
    if "x \<in> set (queue st)"
  proof -
    from w that have "settled st (op_id x) = None" by (simp add: wf_def wf_ids_def)
    with that show ?thesis
      by (simp add: clearQueue_alt settled_clearLoop_True)
  qed
  have 2: "settled (clearQueue True st) i = settled st i" if "i \<notin> op_id ` set (queue st)"
    using that by (simp add: clearQueue_alt settled_clearLoop_True)
  have 3: "settled (clearQueue False st) = settled st"
    by (simp add: clearQueue_alt settled_clearLoop_False)
  have 4: "x \<notin> set (listeners (clearQueue rej st))" if "x \<in> set (queue st)" "signal x \<noteq> None"
    using listeners_clearLoop [of x "st\<lparr>refillTimeoutId := None\<rparr>" rej] that
    by (simp add: clearQueue_alt)
  from 1 2 3 4 show ?thesis by simp
qed

theorem C7_witness:
  "createLimit example_options 0 = Inr example_limiter
   \<and> \<lparr>op_id = 1, priority = 0, signal = Some 7\<rparr>
       \<in> set (queue (run example_limiter [Submit 0 None 0, Submit 0 (Some 7) 0]))
   \<and> signal \<lparr>op_id = 1, priority = 0, signal = Some 7\<rparr> \<noteq> None
   \<and> 0 \<notin> op_id ` set (queue (run example_limiter [Submit 0 None 0, Submit 0 (Some 7) 0]))
   \<and> queue (clearQueue True (run example_limiter [Submit 0 None 0, Submit 0 (Some 7) 0])) = []
   \<and> activeCount (clearQueue True (run example_limiter [Submit 0 None 0, Submit 0 (Some 7) 0])) = 1
   \<and> settled (clearQueue True (run example_limiter [Submit 0 None 0, Submit 0 (Some 7) 0])) 1
       = Some (Rejected QueueClearedError)
   \<and> settled (clearQueue True (run example_limiter [Submit 0 None 0, Submit 0 (Some 7) 0])) 0 = None
   \<and> settled (clearQueue False (run example_limiter [Submit 0 None 0, Submit 0 (Some 7) 0])) 1 = None
   \<and> \<lparr>op_id = 1, priority = 0, signal = Some 7\<rparr>
       \<notin> set (listeners (clearQueue True (run example_limiter [Submit 0 None 0, Submit 0 (Some 7) 0])))"
proof -
  let ?st = "run example_limiter [Submit 0 None 0, Submit 0 (Some 7) 0]"
  let ?x = "\<lparr>op_id = 1, priority = 0, signal = Some 7\<rparr>"
  have h: "?x \<in> set (queue ?st)" "signal ?x \<noteq> None" "0 \<notin> op_id ` set (queue ?st)"
    "activeCount ?st = 1" "settled ?st 0 = None" "settled ?st 1 = None" "op_id ?x = 1"
    by code_simp+
  from C7_clearQueue [OF createLimit_example refl, of True "[Submit 0 None 0, Submit 0 (Some 7) 0]" ?x 0]
    h createLimit_example
  show ?thesis by simp
qed

subsection \<open>The turns of the admission loop\<close>

lemma admit_aborted:
  assumes "queue st = x # rest" "signal_aborted (signal x) st"
  shows "admit st = settle (op_id x) (Rejected AbortError) (removeEventListener x (st\<lparr>queue := rest\<rparr>))"
proof -
  have "signal_aborted (signal x) (removeEventListener x (st\<lparr>queue := rest\<rparr>))
        = signal_aborted (signal x) st"
    by (rule signal_aborted_cong) simp
  with assms show ?thesis by (simp add: admit_def Let_def)
qed

lemma admit_dispatch:
  assumes "queue st = x # rest" "\<not> signal_aborted (signal x) st"
  shows "admit st =
     (if rate st \<noteq> None
      then (removeEventListener x (st\<lparr>queue := rest\<rparr>))
             \<lparr>activeCount := activeCount st + 1, tokens := num_dec (tokens st),
              running := running st @ [x]\<rparr>
      else (removeEventListener x (st\<lparr>queue := rest\<rparr>))
             \<lparr>activeCount := activeCount st + 1, running := running st @ [x]\<rparr>)"
proof -
  have "signal_aborted (signal x) (removeEventListener x (st\<lparr>queue := rest\<rparr>))
        = signal_aborted (signal x) st"
    by (rule signal_aborted_cong) simp
  with assms show ?thesis by (simp add: admit_def Let_def)
qed

text \<open>What one turn of the loop does to \<open>activeCount\<close>, \<open>tokens\<close> and \<open>running\<close>.\<close>

lemma admit_accounting:
  assumes "queue st \<noteq> []"
  shows "(activeCount (admit st) = activeCount st \<and> tokens (admit st) = tokens st
          \<and> running (admit st) = running st)
       \<or> (activeCount (admit st) = activeCount st + 1
          \<and> tokens (admit st) = (if rate st \<noteq> None then num_dec (tokens st) else tokens st)
          \<and> length (running (admit st)) = length (running st) + 1)"
proof -
  from assms obtain x rest where q: "queue st = x # rest" by (cases "queue st") auto
  show ?thesis
  proof (cases "signal_aborted (signal x) st")
    case True
    then show ?thesis by (simp add: admit_aborted [OF q True])
  next
    case False
    then show ?thesis by (simp add: admit_dispatch [OF q False])
  qed
qed

lemma processLoop_accounting:
  "activeCount (processLoop st) - int (length (running (processLoop st)))
     = activeCount st - int (length (running st))
   \<and> (rate st = None \<longrightarrow> tokens (processLoop st) = tokens st)
   \<and> (rate st \<noteq> None \<longrightarrow> (\<forall>t. tokens st = Fin t \<longrightarrow>
         tokens (processLoop st)
           = Fin (t - (int (length (running (processLoop st))) - int (length (running st))))))"
proof -
  let ?P = "\<lambda>s. rate s = rate st
     \<and> activeCount s - int (length (running s)) = activeCount st - int (length (running st))
     \<and> (rate st = None \<longrightarrow> tokens s = tokens st)
     \<and> (rate st \<noteq> None \<longrightarrow> (\<forall>t. tokens st = Fin t \<longrightarrow>
           tokens s = Fin (t - (int (length (running s)) - int (length (running st))))))"
  have "?P (processLoop st)"
  proof (rule processLoop_preserves_guard [where P = ?P])
    show "?P st" by simp
  next
    fix s :: limiter
    assume p: "?P s" and q: "queue s \<noteq> []"
    from admit_accounting [OF q] p show "?P (admit s)"
      by (elim disjE) auto
  qed
  then show ?thesis by simp
qed

lemma processLoop_unfold:
  "queue st \<noteq> [] \<Longrightarrow> num_lt (Fin (activeCount st)) (concurrency st) \<Longrightarrow> num_lt (Fin 0) (tokens st)
   \<Longrightarrow> processLoop st = processLoop (admit st)"
  by (subst processLoop.simps) simp

text \<open>
  Claim C9. In a turn of the admission loop, on any state, when the signal of the
  popped operation is found aborted, the operation is rejected with \<^verbatim>\<open>AbortError\<close> (its
  promise, pending like that of every queued operation, is settled so) and the loop
  goes on to the next turn with \<open>activeCount\<close>, \<open>tokens\<close> and the running operations
  unchanged.
  Otherwise the operation is dispatched: \<open>activeCount\<close> grows by one and, with a rate
  configured, \<open>tokens\<close> shrinks by one. Over a whole pass, \<open>activeCount\<close> grows by the
  number of operations dispatched, and with a rate so many tokens are consumed.
\<close>

theorem C9_admission:
  assumes "queue st = x # rest"
  shows "(signal_aborted (signal x) st \<longrightarrow>
            queue (admit st) = rest
            \<and> activeCount (admit st) = activeCount st
            \<and> tokens (admit st) = tokens st
            \<and> running (admit st) = running st
            \<and> (settled st (op_id x) = None \<longrightarrow>
                  settled (admit st) (op_id x) = Some (Rejected AbortError)))
       \<and> (\<not> signal_aborted (signal x) st \<longrightarrow>
            queue (admit st) = rest
            \<and> activeCount (admit st) = activeCount st + 1
            \<and> tokens (admit st) = (if rate st \<noteq> None then num_dec (tokens st) else tokens st)
            \<and> running (admit st) = running st @ [x]
            \<and> settled (admit st) = settled st)
       \<and> (num_lt (Fin (activeCount st)) (concurrency st) \<and> num_lt (Fin 0) (tokens st) \<longrightarrow>
            processLoop st = processLoop (admit st))
       \<and> activeCount (processLoop st) - activeCount st
           = int (length (running (processLoop st))) - int (length (running st))
       \<and> (rate st \<noteq> None \<and> tokens st = Fin t \<longrightarrow>
            tokens (processLoop st)
              = Fin (t - (int (length (running (processLoop st))) - int (length (running st)))))
       \<and> (rate st = None \<longrightarrow> tokens (processLoop st) = tokens st)"
proof -
  have 1: "queue (admit st) = rest \<and> activeCount (admit st) = activeCount st
           \<and> tokens (admit st) = tokens st \<and> running (admit st) = running st
           \<and> (settled st (op_id x) = None \<longrightarrow>
                 settled (admit st) (op_id x) = Some (Rejected AbortError))"
    if "signal_aborted (signal x) st"
    by (simp add: admit_aborted [OF assms that] settled_settle)
  have 2: "queue (admit st) = rest \<and> activeCount (admit st) = activeCount st + 1
           \<and> tokens (admit st) = (if rate st \<noteq> None then num_dec (tokens st) else tokens st)
           \<and> running (admit st) = running st @ [x] \<and> settled (admit st) = settled st"
    if "\<not> signal_aborted (signal x) st"
    by (simp add: admit_dispatch [OF assms that])
  have 3: "processLoop st = processLoop (admit st)"
    if "num_lt (Fin (activeCount st)) (concurrency st)" "num_lt (Fin 0) (tokens st)"
    using assms that by (intro processLoop_unfold) simp_all
  have 4: "activeCount (processLoop st) - activeCount st
           = int (length (running (processLoop st))) - int (length (running st))"
    using processLoop_accounting [of st] by linarith
  from 1 2 3 4 processLoop_accounting [of st] show ?thesis by simp
qed

theorem C9_witness:
  "queue race_limiter
     = \<lparr>op_id = 0, priority = 0, signal = Some 7\<rparr> # [\<lparr>op_id = 1, priority = 0, signal = None\<rparr>]
   \<and> signal_aborted (signal \<lparr>op_id = 0, priority = 0, signal = Some 7\<rparr>) race_limiter
   \<and> activeCount (admit race_limiter) = 0
   \<and> tokens (admit race_limiter) = Fin 2
   \<and> running (admit race_limiter) = []
   \<and> settled (admit race_limiter) 0 = Some (Rejected AbortError)
   \<and> queue (admit race_limiter) = \<lparr>op_id = 1, priority = 0, signal = None\<rparr> # []
   \<and> \<not> signal_aborted (signal \<lparr>op_id = 1, priority = 0, signal = None\<rparr>) (admit race_limiter)
   \<and> activeCount (admit (admit race_limiter)) = 1
   \<and> tokens (admit (admit race_limiter)) = Fin 1
   \<and> running (admit (admit race_limiter)) = [\<lparr>op_id = 1, priority = 0, signal = None\<rparr>]
   \<and> activeCount (processLoop race_limiter) = 1
   \<and> tokens (processLoop race_limiter) = Fin 1"
proof -
  let ?x = "\<lparr>op_id = 0, priority = 0, signal = Some 7\<rparr>"
  let ?y = "\<lparr>op_id = 1, priority = 0, signal = None\<rparr>"
  have h: "queue race_limiter = ?x # [?y]" "signal_aborted (signal ?x) race_limiter"
    "activeCount race_limiter = 0" "tokens race_limiter = Fin 2" "running race_limiter = []"
    "settled race_limiter 0 = None" "rate race_limiter \<noteq> None"
    "concurrency race_limiter = Fin 2"
    by (simp_all add: race_limiter_def)
  note a = C9_admission [OF h(1), of 2]
  note a1 = a [THEN conjunct1, rule_format, OF h(2)]
  note a3 = a [THEN conjunct2, THEN conjunct2, THEN conjunct1]
  note a4 = a [THEN conjunct2, THEN conjunct2, THEN conjunct2, THEN conjunct1]
  note a5 = a [THEN conjunct2, THEN conjunct2, THEN conjunct2, THEN conjunct2, THEN conjunct1]
  from a1 h have a': "queue (admit race_limiter) = ?y # []" "activeCount (admit race_limiter) = 0"
    "tokens (admit race_limiter) = Fin 2" "running (admit race_limiter) = []"
    "settled (admit race_limiter) 0 = Some (Rejected AbortError)"
    by simp_all
  have g: "\<not> signal_aborted (signal ?y) (admit race_limiter)"
    "rate (admit race_limiter) \<noteq> None"
    by (simp_all add: race_limiter_def)
  have l: "length (running (processLoop race_limiter)) = 1"
    by code_simp
  note b = C9_admission [OF a'(1), of 2]
  note b2 = b [THEN conjunct2, THEN conjunct1, rule_format, OF g(1)]
  from b2 g a' have b': "activeCount (admit (admit race_limiter)) = 1"
    "tokens (admit (admit race_limiter)) = Fin 1"
    "running (admit (admit race_limiter)) = [?y]"
    by simp_all
  from a4 h l have c1: "activeCount (processLoop race_limiter) = 1"
    by simp
  from a5 h l have c2: "tokens (processLoop race_limiter) = Fin 1"
    by simp
  from h a' g b' c1 c2 show ?thesis by simp
qed

subsection \<open>The order of the queue\<close>

lemma insert_op_takeWhile:
  "insert_op x q = takeWhile (\<lambda>y. priority x \<le> priority y) q
                   @ x # dropWhile (\<lambda>y. priority x \<le> priority y) q"
  by (induction q) auto

lemma sorted_wrt_insert_op:
  assumes "sorted_wrt before q" "\<forall>y\<in>set q. op_id y < op_id x"
  shows "sorted_wrt before (insert_op x q)"
  using assms
proof (induction q)
  case Nil
  then show ?case by simp
next
  case (Cons a q)
  show ?case
  proof (cases "priority a < priority x")
    case True
    have "before x y" if "y \<in> set (a # q)" for y
    proof (cases "y = a")
      case True
      with \<open>priority a < priority x\<close> show ?thesis by (simp add: before_def)
    next
      case False
      with that Cons.prems(1) have "before a y" by auto
      with True show ?thesis by (auto simp: before_def)
    qed
    with Cons.prems(1) True show ?thesis by simp
  next
    case False
    with Cons.prems(2) have "before a x" by (auto simp: before_def)
    with Cons False show ?thesis by auto
  qed
qed

lemma ordered_queue_cong: "queue s' = queue s \<Longrightarrow> ordered_queue s' = ordered_queue s"
  by (simp add: ordered_queue_def)

lemma ordered_queue_admit: "ordered_queue st \<Longrightarrow> ordered_queue (admit st)"
proof (cases "queue st")
  case Nil
  then show "ordered_queue st \<Longrightarrow> ordered_queue (admit st)" by (simp add: admit_def)
next
  case (Cons x rest)
  have "queue (admit st) = rest"
    by (cases "signal_aborted (signal x) st")
       (simp_all add: admit_aborted [OF Cons] admit_dispatch [OF Cons])
  moreover assume "ordered_queue st"
  ultimately show "ordered_queue (admit st)"
    using Cons by (simp add: ordered_queue_def)
qed

lemma ordered_queue_processQueue: "ordered_queue st \<Longrightarrow> ordered_queue (processQueue now st)"
proof -
  assume "ordered_queue st"
  then have "ordered_queue (refillTokens now st)"
    by (simp add: ordered_queue_cong [of "refillTokens now st" st])
  then have "ordered_queue (processLoop (refillTokens now st))"
    by (rule processLoop_preserves [rotated]) (rule ordered_queue_admit)
  moreover have "ordered_queue (processQueue now st)
                 = ordered_queue (processLoop (refillTokens now st))"
    unfolding processQueue_def Let_def by (rule ordered_queue_cong) simp
  ultimately show ?thesis by simp
qed

lemma enqueue_accepted:
  assumes "\<not> signal_aborted sg st"
    "\<not> num_le (maxQueueSize st) (Fin (int (length (queue st))))"
  shows "enqueue prio sg now st =
     processQueue now
       ((case sg of None \<Rightarrow> st\<lparr>next_id := Suc (next_id st)\<rparr>
         | Some s \<Rightarrow> st\<lparr>next_id := Suc (next_id st),
                       listeners := listeners st @ [\<lparr>op_id = next_id st, priority = prio, signal = sg\<rparr>]\<rparr>)
        \<lparr>queue := insert_op \<lparr>op_id = next_id st, priority = prio, signal = sg\<rparr> (queue st)\<rparr>)"
proof -
  have na: "\<not> signal_aborted sg (st\<lparr>next_id := Suc (next_id st)\<rparr>)"
    using assms(1) by (simp add: signal_aborted_cong [of "st\<lparr>next_id := Suc (next_id st)\<rparr>" st])
  show ?thesis
    using na assms(2) by (cases sg) (simp_all add: enqueue_def Let_def)
qed

lemma ordered_queue_enqueue:
  assumes "wf st" "ordered_queue st"
  shows "ordered_queue (enqueue prio sg now st)"
proof (cases "signal_aborted sg st \<or> num_le (maxQueueSize st) (Fin (int (length (queue st))))")
  case True
  have "queue (enqueue prio sg now st) = queue st"
  proof (cases "signal_aborted sg st")
    case True
    then show ?thesis by (simp add: enqueue_aborted [OF assms(1)])
  next
    case False
    with True show ?thesis by (simp add: enqueue_full [OF assms(1)])
  qed
  with assms(2) show ?thesis by (simp add: ordered_queue_def)
next
  case False
  let ?x = "\<lparr>op_id = next_id st, priority = prio, signal = sg\<rparr>"
  from assms(1) have "\<forall>y\<in>set (queue st). op_id y < op_id ?x"
    by (simp add: wf_def wf_ids_def)
  with assms(2) have "sorted_wrt before (insert_op ?x (queue st))"
    unfolding ordered_queue_def by (rule sorted_wrt_insert_op)
  then have "ordered_queue
       ((case sg of None \<Rightarrow> st\<lparr>next_id := Suc (next_id st)\<rparr>
         | Some s \<Rightarrow> st\<lparr>next_id := Suc (next_id st), listeners := listeners st @ [?x]\<rparr>)
        \<lparr>queue := insert_op ?x (queue st)\<rparr>)"
    by (simp add: ordered_queue_def)
  then show ?thesis
    using False by (simp add: enqueue_accepted ordered_queue_processQueue)
qed

lemma ordered_queue_step:
  assumes "wf st" "ordered_queue st"
  shows "ordered_queue (step st e)"
proof (cases e)
  case (Submit prio sg now)
  with assms show ?thesis by (simp add: ordered_queue_enqueue)
next
  case (Complete i out now)
  let ?st3 = "settle i out (st\<lparr>running := filter (\<lambda>y. op_id y \<noteq> i) (running st),
                                 activeCount := activeCount st - 1\<rparr>)"
  have "ordered_queue ?st3 = ordered_queue st"
    by (rule ordered_queue_cong) simp
  with assms(2) have "ordered_queue (processQueue now ?st3)"
    by (simp add: ordered_queue_processQueue)
  moreover have "ordered_queue (checkIdle (processQueue now ?st3))
                 = ordered_queue (processQueue now ?st3)"
    by (rule ordered_queue_cong) simp
  ultimately show ?thesis
    using assms(2) Complete by (simp add: complete_def Let_def)
next
  case (Abort s)
  have "ordered_queue (abort s st) = ordered_queue st"
    by (rule ordered_queue_cong) simp
  with assms(2) Abort show ?thesis by simp
next
  case (Watcher x)
  from assms(1) have "distinct (map op_id (queue st))" by (simp add: wf_def wf_ids_def)
  from queue_watcher [OF this, of x] assms(2) have "ordered_queue (watcher x st)"
    by (auto simp: ordered_queue_def sorted_wrt_filter)
  with Watcher show ?thesis by simp
next
  case (TimerFire now)
  let ?st1 = "refillTokens now (st\<lparr>refillTimeoutId := None\<rparr>)"
  have "ordered_queue ?st1 = ordered_queue st"
    by (rule ordered_queue_cong) simp
  with assms(2) have "ordered_queue (processQueue now ?st1)"
    by (simp add: ordered_queue_processQueue)
  with assms(2) TimerFire show ?thesis
    by (simp add: timerFire_def split: option.splits)
next
  case (ClearQueue rej)
  then show ?thesis by (simp add: ordered_queue_def)
next
  case OnIdle
  have "ordered_queue (onIdle st) = ordered_queue st"
    by (rule ordered_queue_cong) simp
  with assms(2) OnIdle show ?thesis by simp
qed

lemma ordered_queue_run:
  assumes "createLimit options now = Inr st0"
  shows "ordered_queue (run st0 evs)"
proof -
  have "wf (run st0 evs) \<and> ordered_queue (run st0 evs)"
  proof (rule run_preserves [where P = "\<lambda>s. wf s \<and> ordered_queue s"])
    show "wf st0 \<and> ordered_queue st0"
      using wf_createLimit [OF assms] createLimit_Inr(2) [OF assms]
      by (simp add: ordered_queue_def)
  qed (simp add: wf_step ordered_queue_step)
  then show ?thesis by simp
qed

lemma dropWhile_lower:
  assumes "sorted_wrt before q"
  shows "\<forall>y\<in>set (dropWhile (\<lambda>y. priority x \<le> priority y) q). priority y < priority x"
  using assms
proof (induction q)
  case Nil
  then show ?case by simp
next
  case (Cons a q)
  show ?case
  proof (cases "priority x \<le> priority a")
    case True
    with Cons show ?thesis by simp
  next
    case False
    from Cons.prems have "\<forall>y\<in>set q. priority y \<le> priority a"
      by (auto simp: before_def)
    with False show ?thesis by auto
  qed
qed

lemma ordered_precedes:
  assumes "sorted_wrt before q" "i < length q" "j < length q"
    "op_id (q ! i) < op_id (q ! j)" "priority (q ! j) \<le> priority (q ! i)"
  shows "i < j"
proof (rule ccontr)
  assume "\<not> i < j"
  moreover from assms(4) have "i \<noteq> j" by auto
  ultimately have "j < i" by simp
  with assms(1,2) have "before (q ! j) (q ! i)"
    by (simp add: sorted_wrt_iff_nth_less)
  with assms(4,5) show False by (auto simp: before_def)
qed

text \<open>
  Claim C2. Identities are handed out in submission order, so \<open>op_id a < op_id b\<close>
  says that \<open>a\<close> was submitted before \<open>b\<close>. In every reachable state: an accepted
  submission puts its operation into the queue with the insertion loop \<open>insert_op\<close>
  before the admission pass starts; \<open>insert_op\<close> places it after the longest prefix of
  operations whose priority is not lower than its own, and every operation behind it
  has a strictly lower priority. Of two queued operations, the one submitted earlier
  comes first unless its priority is lower. The head of the queue, which a turn of the
  admission loop pops, has the highest priority and is the earliest submitted of that
  priority.
\<close>

theorem C2_priority_order:
  assumes "createLimit options t0 = Inr st0" and "st = run st0 evs"
  shows "(\<not> signal_aborted sg st \<and> \<not> num_le (maxQueueSize st) (Fin (int (length (queue st)))) \<longrightarrow>
            enqueue prio sg now st =
              processQueue now
                ((case sg of None \<Rightarrow> st\<lparr>next_id := Suc (next_id st)\<rparr>
                  | Some s \<Rightarrow> st\<lparr>next_id := Suc (next_id st),
                                listeners := listeners st
                                  @ [\<lparr>op_id = next_id st, priority = prio, signal = sg\<rparr>]\<rparr>)
                 \<lparr>queue := insert_op \<lparr>op_id = next_id st, priority = prio, signal = sg\<rparr> (queue st)\<rparr>))
       \<and> insert_op x (queue st)
           = takeWhile (\<lambda>y. priority x \<le> priority y) (queue st)
             @ x # dropWhile (\<lambda>y. priority x \<le> priority y) (queue st)
       \<and> (\<forall>y\<in>set (dropWhile (\<lambda>y. priority x \<le> priority y) (queue st)). priority y < priority x)
       \<and> (i < length (queue st) \<and> j < length (queue st)
            \<and> op_id (queue st ! i) < op_id (queue st ! j)
            \<and> priority (queue st ! j) \<le> priority (queue st ! i) \<longrightarrow> i < j)
       \<and> (queue st = a # rest \<longrightarrow>
            queue (admit st) = rest
            \<and> (\<forall>b\<in>set rest. priority b \<le> priority a
                               \<and> (priority b = priority a \<longrightarrow> op_id a < op_id b)))"
proof -
  have o: "sorted_wrt before (queue st)"
    using ordered_queue_run [OF assms(1), of evs] assms(2) by (simp add: ordered_queue_def)
  have 1: "\<not> signal_aborted sg st \<and> \<not> num_le (maxQueueSize st) (Fin (int (length (queue st)))) \<longrightarrow>
            enqueue prio sg now st =
              processQueue now
                ((case sg of None \<Rightarrow> st\<lparr>next_id := Suc (next_id st)\<rparr>
                  | Some s \<Rightarrow> st\<lparr>next_id := Suc (next_id st),
                                listeners := listeners st
                                  @ [\<lparr>op_id = next_id st, priority = prio, signal = sg\<rparr>]\<rparr>)
                 \<lparr>queue := insert_op \<lparr>op_id = next_id st, priority = prio, signal = sg\<rparr> (queue st)\<rparr>)"
    using enqueue_accepted [of sg st prio now] by blast
  have 4: "i < j"
    if "i < length (queue st)" "j < length (queue st)"
      "op_id (queue st ! i) < op_id (queue st ! j)"
      "priority (queue st ! j) \<le> priority (queue st ! i)"
    using o that by (rule ordered_precedes)
  have 5: "queue (admit st) = rest
            \<and> (\<forall>b\<in>set rest. priority b \<le> priority a
                               \<and> (priority b = priority a \<longrightarrow> op_id a < op_id b))"
    if q: "queue st = a # rest"
  proof -
    have "queue (admit st) = rest"
      by (cases "signal_aborted (signal a) st")
         (simp_all add: admit_aborted [OF q] admit_dispatch [OF q])
    moreover from o q have "\<forall>b\<in>set rest. before a b" by simp
    ultimately show ?thesis by (auto simp: before_def)
  qed
  from 1 4 5 insert_op_takeWhile [of x "queue st"] dropWhile_lower [OF o, of x]
  show ?thesis by blast
qed

theorem C2_witness:
  "createLimit serial_options 0 = Inr serial_limiter
   \<and> queue (run serial_limiter [Submit 0 None 0, Submit 1 None 0, Submit 10 None 0, Submit 5 None 0])
       = \<lparr>op_id = 2, priority = 10, signal = None\<rparr>
         # [\<lparr>op_id = 3, priority = 5, signal = None\<rparr>, \<lparr>op_id = 1, priority = 1, signal = None\<rparr>]
   \<and> queue (enqueue 5 None 0
         (run serial_limiter [Submit 0 None 0, Submit 1 None 0, Submit 10 None 0, Submit 5 None 0]))
       = [\<lparr>op_id = 2, priority = 10, signal = None\<rparr>, \<lparr>op_id = 3, priority = 5, signal = None\<rparr>,
          \<lparr>op_id = 4, priority = 5, signal = None\<rparr>, \<lparr>op_id = 1, priority = 1, signal = None\<rparr>]
   \<and> queue (admit
         (run serial_limiter [Submit 0 None 0, Submit 1 None 0, Submit 10 None 0, Submit 5 None 0]))
       = [\<lparr>op_id = 3, priority = 5, signal = None\<rparr>, \<lparr>op_id = 1, priority = 1, signal = None\<rparr>]
   \<and> \<lparr>op_id = 1, priority = 1, signal = None\<rparr>
       \<in> set (dropWhile (\<lambda>y. priority \<lparr>op_id = 4, priority = 5, signal = None\<rparr> \<le> priority y)
            (queue (run serial_limiter
               [Submit 0 None 0, Submit 1 None 0, Submit 10 None 0, Submit 5 None 0])))
   \<and> priority \<lparr>op_id = 1, priority = 1, signal = None\<rparr>
       < priority \<lparr>op_id = 4, priority = 5, signal = None\<rparr>
   \<and> (0::nat) < 1"
proof -
  let ?st = "run serial_limiter [Submit 0 None 0, Submit 1 None 0, Submit 10 None 0, Submit 5 None 0]"
  let ?a = "\<lparr>op_id = 2, priority = 10, signal = None\<rparr>"
  let ?rest = "[\<lparr>op_id = 3, priority = 5, signal = None\<rparr>, \<lparr>op_id = 1, priority = 1, signal = None\<rparr>]"
  have q: "queue ?st = ?a # ?rest"
    by code_simp
  have h: "\<not> signal_aborted None ?st"
    "\<not> num_le (maxQueueSize ?st) (Fin (int (length (queue ?st))))"
    "queue (enqueue 5 None 0 ?st)
       = [\<lparr>op_id = 2, priority = 10, signal = None\<rparr>, \<lparr>op_id = 3, priority = 5, signal = None\<rparr>,
          \<lparr>op_id = 4, priority = 5, signal = None\<rparr>, \<lparr>op_id = 1, priority = 1, signal = None\<rparr>]"
    by code_simp+
  have k: "0 < length (queue ?st)" "1 < length (queue ?st)"
    "op_id (queue ?st ! 0) < op_id (queue ?st ! 1)"
    "priority (queue ?st ! 1) \<le> priority (queue ?st ! 0)"
    by code_simp+
  note t = C2_priority_order [OF createLimit_serial refl,
      of None "[Submit 0 None 0, Submit 1 None 0, Submit 10 None 0, Submit 5 None 0]" 5 0
         "\<lparr>op_id = 4, priority = 5, signal = None\<rparr>" 0 1 ?a ?rest]
  have d: "\<lparr>op_id = 1, priority = 1, signal = None\<rparr>
       \<in> set (dropWhile (\<lambda>y. priority \<lparr>op_id = 4, priority = 5, signal = None\<rparr> \<le> priority y)
            (queue ?st))"
    by code_simp
  from t k have "(0::nat) < 1" by blast
  moreover from t q have "queue (admit ?st) = ?rest" by blast
  moreover from t d have "priority \<lparr>op_id = 1, priority = 1, signal = None\<rparr>
       < priority \<lparr>op_id = 4, priority = 5, signal = None\<rparr>"
    by blast
  ultimately show ?thesis using q h d createLimit_serial by simp
qed

subsection \<open>Idle waiters\<close>

lemma waiters_released_checkIdle: "waiters_released (checkIdle st)"
  by (simp add: waiters_released_def idle_def checkIdle_def)

lemma waiters_released_cong:
  assumes "activeCount s' = activeCount s" "queue s' = queue s" "idleResolvers s' = idleResolvers s"
  shows "waiters_released s' = waiters_released s"
  by (simp add: waiters_released_def idle_def assms)

lemma waiters_released_processQueue: "waiters_released (processQueue now st)"
  by (simp add: processQueue_def Let_def waiters_released_checkIdle)

lemma onIdle_idle:
  "idle st \<Longrightarrow> onIdle st = st\<lparr>next_id := Suc (next_id st), idleResolved := idleResolved st @ [next_id st]\<rparr>"
  by (simp add: onIdle_def idle_def Let_def)

lemma onIdle_busy:
  "\<not> idle st \<Longrightarrow> onIdle st = st\<lparr>next_id := Suc (next_id st), idleResolvers := idleResolvers st @ [next_id st]\<rparr>"
  by (auto simp: onIdle_def idle_def Let_def)

lemma checkIdle_idle:
  "idle st \<Longrightarrow> checkIdle st = st\<lparr>idleResolved := idleResolved st @ idleResolvers st, idleResolvers := []\<rparr>"
  by (cases "idleResolvers st = []") (simp_all add: checkIdle_def idle_def)

lemma checkIdle_busy: "\<not> idle st \<Longrightarrow> checkIdle st = st"
  by (auto simp: checkIdle_def idle_def)

text \<open>
  Every event other than the run of an abort watcher leaves no waiter behind in an
  idle limiter: a waiter is released by the very event that makes the limiter idle.
\<close>

lemma waiters_released_step:
  assumes "waiters_released st" "\<forall>x. e \<noteq> Watcher x"
  shows "waiters_released (step st e)"
proof (cases e)
  case (Submit prio sg now)
  have "waiters_released (settle (next_id st) r (st\<lparr>next_id := Suc (next_id st)\<rparr>))
        = waiters_released st" for r
    by (rule waiters_released_cong) simp_all
  with assms(1) Submit show ?thesis
    by (simp add: enqueue_def Let_def waiters_released_processQueue)
next
  case (Complete i out now)
  with assms(1) show ?thesis
    by (simp add: complete_def Let_def waiters_released_checkIdle)
next
  case (Abort s)
  have "waiters_released (abort s st) = waiters_released st"
    by (rule waiters_released_cong) simp_all
  with assms(1) Abort show ?thesis by simp
next
  case (Watcher x)
  with assms(2) show ?thesis by simp
next
  case (TimerFire now)
  with assms(1) show ?thesis
    by (simp add: timerFire_def waiters_released_processQueue split: option.splits)
next
  case (ClearQueue rej)
  then show ?thesis by (simp add: clearQueue_def Let_def waiters_released_checkIdle)
next
  case OnIdle
  show ?thesis
  proof (cases "idle st")
    case True
    with assms(1) OnIdle show ?thesis
      by (simp add: onIdle_idle waiters_released_def idle_def)
  next
    case False
    with OnIdle show ?thesis
      by (simp add: onIdle_busy waiters_released_def idle_def)
  qed
qed

text \<open>
  Claim C8 fails on the code when a cancellation is what makes the limiter idle. One
  operation runs, a second one with signal \<open>7\<close> waits for a token; the first completes at
  time \<open>5\<close>, then \<^verbatim>\<open>onIdle()\<close> is called and returns the pending promise \<open>2\<close>. Signal
  \<open>7\<close> is aborted and the watcher of the second operation runs: it empties the queue, so
  that both counts are zero, but \<^verbatim>\<open>onAbort\<close> does not call \<^verbatim>\<open>checkIdle\<close>: promise \<open>2\<close>
  stays pending, while a second \<^verbatim>\<open>onIdle()\<close> made now returns the resolved promise
  \<open>3\<close>. Promise \<open>2\<close> is resolved only when the refill timer fires.
\<close>

theorem C8_waiter_left_behind_by_abort:
  "activeCount (run example_limiter
      [Submit 0 None 0, Submit 0 (Some 7) 0, Complete 0 (Resolved 0) 5, OnIdle, Abort 7,
       Watcher \<lparr>op_id = 1, priority = 0, signal = Some 7\<rparr>]) = 0
   \<and> queue (run example_limiter
      [Submit 0 None 0, Submit 0 (Some 7) 0, Complete 0 (Resolved 0) 5, OnIdle, Abort 7,
       Watcher \<lparr>op_id = 1, priority = 0, signal = Some 7\<rparr>]) = []
   \<and> idleResolvers (run example_limiter
      [Submit 0 None 0, Submit 0 (Some 7) 0, Complete 0 (Resolved 0) 5, OnIdle, Abort 7,
       Watcher \<lparr>op_id = 1, priority = 0, signal = Some 7\<rparr>]) = [2]
   \<and> idleResolved (run example_limiter
      [Submit 0 None 0, Submit 0 (Some 7) 0, Complete 0 (Resolved 0) 5, OnIdle, Abort 7,
       Watcher \<lparr>op_id = 1, priority = 0, signal = Some 7\<rparr>]) = []
   \<and> idleResolvers (run example_limiter
      [Submit 0 None 0, Submit 0 (Some 7) 0, Complete 0 (Resolved 0) 5, OnIdle, Abort 7,
       Watcher \<lparr>op_id = 1, priority = 0, signal = Some 7\<rparr>, OnIdle]) = [2]
   \<and> idleResolved (run example_limiter
      [Submit 0 None 0, Submit 0 (Some 7) 0, Complete 0 (Resolved 0) 5, OnIdle, Abort 7,
       Watcher \<lparr>op_id = 1, priority = 0, signal = Some 7\<rparr>, OnIdle]) = [3]
   \<and> idleResolved (run example_limiter
      [Submit 0 None 0, Submit 0 (Some 7) 0, Complete 0 (Resolved 0) 5, OnIdle, Abort 7,
       Watcher \<lparr>op_id = 1, priority = 0, signal = Some 7\<rparr>, OnIdle, TimerFire 100]) = [3, 2]"
  by code_simp

end
